theory Spec2Isabelle
  imports Complex_Main "HOL-Library.Word" "HOL-Library.Monad_Syntax"
begin

unbundle bit_operations_syntax

section \<open>Machine types and constants (neon\_types.h)\<close>

text \<open>
  The headers only compile for AArch64: \<^verbatim>\<open>neon_exp_f32x4\<close> uses \<^verbatim>\<open>vfmaq_f32\<close>
  unconditionally and the ARMv7 branches of the reductions are not valid C. So
  \<^verbatim>\<open>size_t\<close> and \<^verbatim>\<open>uintptr_t\<close> are 64-bit words, and the \<^verbatim>\<open>__aarch64__\<close>
  branch of every conditional is the one modelled. A \<^verbatim>\<open>float\<close> is its IEEE-754
  binary32 bit pattern.
\<close>

type_synonym size_t = "64 word"
type_synonym uintptr_t = "64 word"
type_synonym f32 = "32 word"

definition NEON_ALIGNMENT :: size_t where
  "NEON_ALIGNMENT = 16"

definition sizeof_float :: size_t where
  "sizeof_float = 4"

datatype NeonError =
    NEON_SUCCESS
  | NEON_ERROR_NULL_POINTER
  | NEON_ERROR_INVALID_SIZE
  | NEON_ERROR_MISALIGNED
  | NEON_ERROR_OUT_OF_MEMORY
  | NEON_ERROR_INVALID_PARAM

fun error_code :: "NeonError \<Rightarrow> int" where
  "error_code NEON_SUCCESS = 0"
| "error_code NEON_ERROR_NULL_POINTER = -1"
| "error_code NEON_ERROR_INVALID_SIZE = -2"
| "error_code NEON_ERROR_MISALIGNED = -3"
| "error_code NEON_ERROR_OUT_OF_MEMORY = -4"
| "error_code NEON_ERROR_INVALID_PARAM = -5"

section \<open>Memory\<close>

text \<open>
  A pointer to \<^verbatim>\<open>float\<close> names the object it points into (by the object's base
  address) and an element offset inside it. The heap maps the base address of every
  live object to its cells. An operation that has no defined meaning in C (an access
  outside a live object, \<^verbatim>\<open>free\<close> of something that is not a live block, an
  overlapping \<^verbatim>\<open>memcpy\<close>) returns \<open>None\<close>.
\<close>

record pointer =
  blk :: uintptr_t
  off :: nat

type_synonym heap = "uintptr_t \<Rightarrow> f32 list option"

definition NULL :: pointer where
  "NULL = \<lparr>blk = 0, off = 0\<rparr>"

definition address :: "pointer \<Rightarrow> uintptr_t" where
  "address p = blk p + 4 * of_nat (off p)"

definition IS_ALIGNED :: "pointer \<Rightarrow> bool" where
  "IS_ALIGNED ptr \<longleftrightarrow> (address ptr AND (NEON_ALIGNMENT - 1)) = 0"

definition ptr_add :: "pointer \<Rightarrow> size_t \<Rightarrow> pointer" where
  "ptr_add p i = p\<lparr>off := off p + unat i\<rparr>"

text \<open>
  No C object is larger than \<^verbatim>\<open>PTRDIFF_MAX\<close> bytes, so an element offset of
  \<open>2 ^ 61\<close> floats or more is never inside an object.
\<close>

definition max_elems :: nat where
  "max_elems = 2 ^ 61"

definition load_f32 :: "heap \<Rightarrow> pointer \<Rightarrow> f32 option" where
  "load_f32 h p =
     (case h (blk p) of
        None \<Rightarrow> None
      | Some cs \<Rightarrow> if off p < length cs \<and> off p < max_elems then Some (cs ! off p) else None)"

definition store_f32 :: "heap \<Rightarrow> pointer \<Rightarrow> f32 \<Rightarrow> heap option" where
  "store_f32 h p v =
     (case h (blk p) of
        None \<Rightarrow> None
      | Some cs \<Rightarrow>
          if off p < length cs \<and> off p < max_elems
          then Some (h(blk p \<mapsto> cs[off p := v])) else None)"

subsection \<open>The platform allocator\<close>

text \<open>
  Where \<^verbatim>\<open>posix_memalign\<close> places a block, and whether it finds room at all, is the
  platform's decision: it is an argument of the model. A placement is honoured when
  it is non-null, aligned as requested and not the base of a live block; every other
  decision is an allocation failure. The stale contents of the new block are part of
  the decision, cut or zero-padded to the block's length. A byte count is a number of
  whole floats here: every count the library passes is a multiple of
  \<^verbatim>\<open>sizeof(float)\<close>.
\<close>

datatype alloc_choice = Refuse | Place uintptr_t "f32 list"

definition EINVAL :: int where
  "EINVAL = 22"

definition ENOMEM :: int where
  "ENOMEM = 12"

definition fresh_cells :: "f32 list \<Rightarrow> nat \<Rightarrow> f32 list" where
  "fresh_cells stale n = take n (stale @ replicate n 0)"

definition posix_memalign ::
  "alloc_choice \<Rightarrow> heap \<Rightarrow> pointer \<Rightarrow> size_t \<Rightarrow> size_t \<Rightarrow> int \<times> pointer \<times> heap" where
  "posix_memalign c h memptr alignment sz =
     (if alignment = 0 \<or> (alignment AND (alignment - 1)) \<noteq> 0 \<or> alignment mod 8 \<noteq> 0
      then (EINVAL, memptr, h)
      else
        (case c of
           Refuse \<Rightarrow> (ENOMEM, memptr, h)
         | Place a stale \<Rightarrow>
             if a \<noteq> 0 \<and> (a AND (alignment - 1)) = 0 \<and> h a = None
             then (0, \<lparr>blk = a, off = 0\<rparr>, h(a \<mapsto> fresh_cells stale (unat sz div 4)))
             else (ENOMEM, memptr, h)))"

definition free_block :: "heap \<Rightarrow> pointer \<Rightarrow> heap option" where
  "free_block h p =
     (case h (blk p) of
        None \<Rightarrow> None
      | Some cs \<Rightarrow> if off p = 0 then Some (h(blk p := None)) else None)"

primrec copy_cells :: "f32 list \<Rightarrow> nat \<Rightarrow> f32 list \<Rightarrow> nat \<Rightarrow> nat \<Rightarrow> f32 list" where
  "copy_cells dcs od scs os 0 = dcs"
| "copy_cells dcs od scs os (Suc k) = (copy_cells dcs od scs os k)[od + k := scs ! (os + k)]"

definition memcpy :: "heap \<Rightarrow> pointer \<Rightarrow> pointer \<Rightarrow> size_t \<Rightarrow> heap option" where
  "memcpy h dst src n =
     (let k = unat n div 4 in
      case (h (blk dst), h (blk src)) of
        (Some dcs, Some scs) \<Rightarrow>
          if off dst + k \<le> length dcs \<and> off src + k \<le> length scs
             \<and> (blk dst \<noteq> blk src \<or> off dst + k \<le> off src \<or> off src + k \<le> off dst)
          then Some (h(blk dst \<mapsto> copy_cells dcs (off dst) scs (off src) k))
          else None
      | _ \<Rightarrow> None)"

section \<open>Aligned allocation (memory\_align.h)\<close>

definition aligned_malloc ::
  "alloc_choice \<Rightarrow> heap \<Rightarrow> size_t \<Rightarrow> size_t \<Rightarrow> pointer \<times> heap" where
  "aligned_malloc c h sz alignment =
     (if alignment = 0 \<or> (alignment AND (alignment - 1)) \<noteq> 0 then (NULL, h)
      else
        (case posix_memalign c h NULL alignment sz of
           (rc, ptr, h') \<Rightarrow> if rc \<noteq> 0 then (NULL, h') else (ptr, h')))"

definition aligned_free :: "heap \<Rightarrow> pointer \<Rightarrow> heap option" where
  "aligned_free h ptr = (if ptr = NULL then Some h else free_block h ptr)"

definition neon_malloc :: "alloc_choice \<Rightarrow> heap \<Rightarrow> size_t \<Rightarrow> pointer \<times> heap" where
  "neon_malloc c h sz = aligned_malloc c h sz NEON_ALIGNMENT"

definition neon_free :: "heap \<Rightarrow> pointer \<Rightarrow> heap option" where
  "neon_free h ptr = aligned_free h ptr"

section \<open>Aligned buffers (memory\_align.h)\<close>

text \<open>
  The field \<^verbatim>\<open>size\<close> is \<open>size'\<close> here (\<open>size\<close> is the length of a HOL list). A
  function that takes \<^verbatim>\<open>AlignedBuffer*\<close> takes an optional buffer (\<open>None\<close> for a
  null pointer) and returns the buffer as it leaves it.
\<close>

record AlignedBuffer =
  data :: pointer
  size' :: size_t
  capacity :: size_t

definition aligned_buffer_create ::
  "alloc_choice \<Rightarrow> heap \<Rightarrow> size_t \<Rightarrow> AlignedBuffer \<times> heap" where
  "aligned_buffer_create c h cap =
     (case neon_malloc c h (cap * sizeof_float) of
        (p, h') \<Rightarrow>
          (\<lparr>data = p, size' = 0, capacity = (if p = NULL then 0 else cap)\<rparr>, h'))"

text \<open>
  After the block is released the source has the statement \<^verbatim>\<open>buffer->data == NULL;\<close>:
  a comparison whose value is dropped. The field keeps its value.
\<close>

definition aligned_buffer_destroy ::
  "heap \<Rightarrow> AlignedBuffer option \<Rightarrow> (AlignedBuffer option \<times> heap) option" where
  "aligned_buffer_destroy h buffer =
     (case buffer of
        None \<Rightarrow> Some (None, h)
      | Some b \<Rightarrow>
          do {
            h' \<leftarrow> (if data b \<noteq> NULL then neon_free h (data b) else Some h);
            Some (Some (b\<lparr>size' := 0, capacity := 0\<rparr>), h')
          })"

definition aligned_buffer_resize ::
  "alloc_choice \<Rightarrow> heap \<Rightarrow> AlignedBuffer option \<Rightarrow> size_t
     \<Rightarrow> (NeonError \<times> AlignedBuffer option \<times> heap) option" where
  "aligned_buffer_resize c h buffer new_capacity =
     (case buffer of
        None \<Rightarrow> Some (NEON_ERROR_NULL_POINTER, None, h)
      | Some b \<Rightarrow>
          if new_capacity \<le> capacity b then Some (NEON_SUCCESS, Some b, h)
          else
            (case neon_malloc c h (new_capacity * sizeof_float) of
               (new_data, h1) \<Rightarrow>
                 if new_data = NULL then Some (NEON_ERROR_OUT_OF_MEMORY, Some b, h1)
                 else
                   do {
                     h2 \<leftarrow>
                       (if data b \<noteq> NULL
                        then do {
                          h' \<leftarrow> memcpy h1 new_data (data b) (size' b * sizeof_float);
                          neon_free h' (data b)
                        }
                        else Some h1);
                     Some (NEON_SUCCESS, Some (b\<lparr>data := new_data, capacity := new_capacity\<rparr>), h2)
                   }))"

text \<open>
  The data model's invariant of a buffer: no block and no capacity, or the base of a
  live block of exactly \<open>capacity\<close> floats; and at most \<open>capacity\<close> valid elements.
\<close>

definition buffer_ok :: "heap \<Rightarrow> AlignedBuffer \<Rightarrow> bool" where
  "buffer_ok h b \<longleftrightarrow>
     size' b \<le> capacity b \<and>
     (if data b = NULL then capacity b = 0
      else off (data b) = 0 \<and>
           (case h (blk (data b)) of
              None \<Rightarrow> False
            | Some cs \<Rightarrow> length cs = unat (capacity b)))"

text \<open>The cells from a pointer to the end of its object.\<close>

definition contents :: "heap \<Rightarrow> pointer \<Rightarrow> f32 list" where
  "contents h p = (case h (blk p) of None \<Rightarrow> [] | Some cs \<Rightarrow> drop (off p) cs)"

text \<open>The spec's condition on an alignment.\<close>

definition power_of_two :: "size_t \<Rightarrow> bool" where
  "power_of_two a \<longleftrightarrow> (\<exists>k\<in>{0..<64}. a = 2 ^ k)"

text \<open>A heap with one block of four floats, and a buffer that owns it.\<close>

definition heap0 :: heap where
  "heap0 = Map.empty(0x1000 \<mapsto> [1, 2, 3, 4])"

definition buffer0 :: AlignedBuffer where
  "buffer0 = \<lparr>data = \<lparr>blk = 0x1000, off = 0\<rparr>, size' = 2, capacity = 4\<rparr>"

text \<open>What growing \<open>buffer0\<close> to eight floats at address \<open>0x2000\<close> leaves.\<close>

definition grown0 :: AlignedBuffer where
  "grown0 = \<lparr>data = \<lparr>blk = 0x2000, off = 0\<rparr>, size' = 2, capacity = 8\<rparr>"

definition heap1 :: heap where
  "heap1 = Map.empty(0x2000 \<mapsto> [1, 2, 7, 0, 0, 0, 0, 0])"

section \<open>Vector registers, loads and stores\<close>

text \<open>
  A 128-bit register of four lanes. \<^verbatim>\<open>vld1q_f32\<close> reads, and \<^verbatim>\<open>vst1q_f32\<close> writes,
  four consecutive floats, lane 0 at the lowest address.
\<close>

datatype 'a vec4 = Vec4 'a 'a 'a 'a

type_synonym float32x4_t = "f32 vec4"
type_synonym uint32x4_t = "32 word vec4"

fun lane :: "'a vec4 \<Rightarrow> nat \<Rightarrow> 'a" where
  "lane (Vec4 a b c d) i = (if i = 0 then a else if i = 1 then b else if i = 2 then c else d)"

definition vdupq_n_f32 :: "f32 \<Rightarrow> float32x4_t" where
  "vdupq_n_f32 v = Vec4 v v v v"

definition vld1q_f32 :: "heap \<Rightarrow> pointer \<Rightarrow> float32x4_t option" where
  "vld1q_f32 h p =
     do {
       a \<leftarrow> load_f32 h p;
       b \<leftarrow> load_f32 h (ptr_add p 1);
       c \<leftarrow> load_f32 h (ptr_add p 2);
       d \<leftarrow> load_f32 h (ptr_add p 3);
       Some (Vec4 a b c d)
     }"

fun vst1q_f32 :: "heap \<Rightarrow> pointer \<Rightarrow> float32x4_t \<Rightarrow> heap option" where
  "vst1q_f32 h p (Vec4 a b c d) =
     do {
       h1 \<leftarrow> store_f32 h p a;
       h2 \<leftarrow> store_f32 h1 (ptr_add p 1) b;
       h3 \<leftarrow> store_f32 h2 (ptr_add p 2) c;
       store_f32 h3 (ptr_add p 3) d
     }"

section \<open>Bulk copy and fill (memory\_align.h)\<close>

text \<open>
  Each \<^verbatim>\<open>for\<close> loop is a recursive function of the heap and the index \<open>i\<close>, which
  is a \<^verbatim>\<open>size_t\<close>: \<open>i + 16\<close> wraps around at \<open>2 ^ 64\<close>. The two vector loops return
  the index they stop at, for the loop that follows. A loop goes on only after its
  stores were inside an object, which bounds \<open>i\<close>: that is the termination argument.
\<close>

function copy_loop16 ::
  "heap \<Rightarrow> pointer \<Rightarrow> pointer \<Rightarrow> size_t \<Rightarrow> size_t \<Rightarrow> (heap \<times> size_t) option" where
  "copy_loop16 h dst src sz i =
     (if i + 16 \<le> sz then
        do {
          v0 \<leftarrow> vld1q_f32 h (ptr_add src i);
          v1 \<leftarrow> vld1q_f32 h (ptr_add (ptr_add src i) 4);
          v2 \<leftarrow> vld1q_f32 h (ptr_add (ptr_add src i) 8);
          v3 \<leftarrow> vld1q_f32 h (ptr_add (ptr_add src i) 12);
          h1 \<leftarrow> vst1q_f32 h (ptr_add dst i) v0;
          h2 \<leftarrow> vst1q_f32 h1 (ptr_add (ptr_add dst i) 4) v1;
          h3 \<leftarrow> vst1q_f32 h2 (ptr_add (ptr_add dst i) 8) v2;
          h4 \<leftarrow> vst1q_f32 h3 (ptr_add (ptr_add dst i) 12) v3;
          copy_loop16 h4 dst src sz (i + 16)
        }
      else Some (h, i))"
  by pat_completeness auto
termination
proof (relation "measure (\<lambda>(h, dst, src, sz, i). 2 ^ 64 - unat i)")
  fix h :: heap and dst src :: pointer and sz i :: size_t and v0 v1 v2 v3 h1 h2 h3 h4
  assume "vst1q_f32 h3 (ptr_add (ptr_add dst i) 12) v3 = Some h4"
  then have "unat i + unat (16 :: size_t) < 2 ^ LENGTH(64)"
    by (cases v3)
      (auto simp: ptr_add_def store_f32_def max_elems_def split: bind_splits option.splits if_splits)
  then have "unat (i + 16) = unat i + 16"
    by (simp only: unat_add_lem) simp
  moreover have "unat (i + 16) < 2 ^ 64" using unsigned_less [of "i + 16"] by simp
  ultimately show "((h4, dst, src, sz, i + 16), (h, dst, src, sz, i))
      \<in> measure (\<lambda>(h, dst, src, sz, i). 2 ^ 64 - unat i)"
    by simp
qed simp

function copy_loop4 ::
  "heap \<Rightarrow> pointer \<Rightarrow> pointer \<Rightarrow> size_t \<Rightarrow> size_t \<Rightarrow> (heap \<times> size_t) option" where
  "copy_loop4 h dst src sz i =
     (if i + 4 \<le> sz then
        do {
          v \<leftarrow> vld1q_f32 h (ptr_add src i);
          h1 \<leftarrow> vst1q_f32 h (ptr_add dst i) v;
          copy_loop4 h1 dst src sz (i + 4)
        }
      else Some (h, i))"
  by pat_completeness auto
termination
proof (relation "measure (\<lambda>(h, dst, src, sz, i). 2 ^ 64 - unat i)")
  fix h :: heap and dst src :: pointer and sz i :: size_t and v h1
  assume "vst1q_f32 h (ptr_add dst i) v = Some h1"
  then have "unat i + unat (4 :: size_t) < 2 ^ LENGTH(64)"
    by (cases v)
      (auto simp: ptr_add_def store_f32_def max_elems_def split: bind_splits option.splits if_splits)
  then have "unat (i + 4) = unat i + 4"
    by (simp only: unat_add_lem) simp
  moreover have "unat (i + 4) < 2 ^ 64" using unsigned_less [of "i + 4"] by simp
  ultimately show "((h1, dst, src, sz, i + 4), (h, dst, src, sz, i))
      \<in> measure (\<lambda>(h, dst, src, sz, i). 2 ^ 64 - unat i)"
    by simp
qed simp

function copy_loop1 :: "heap \<Rightarrow> pointer \<Rightarrow> pointer \<Rightarrow> size_t \<Rightarrow> size_t \<Rightarrow> heap option" where
  "copy_loop1 h dst src sz i =
     (if i < sz then
        do {
          x \<leftarrow> load_f32 h (ptr_add src i);
          h1 \<leftarrow> store_f32 h (ptr_add dst i) x;
          copy_loop1 h1 dst src sz (i + 1)
        }
      else Some h)"
  by pat_completeness auto
termination
proof (relation "measure (\<lambda>(h, dst, src, sz, i). unat sz - unat i)")
  fix h :: heap and dst src :: pointer and sz i :: size_t and x :: f32 and h1 :: heap
  assume "i < sz"
  then have "unat i < unat sz" by (simp add: word_less_nat_alt)
  moreover have "unat sz < 2 ^ 64" using unsigned_less [of sz] by simp
  ultimately have "unat (i + 1) = unat i + 1"
    by (simp add: unat_add_lem [THEN iffD1])
  with \<open>unat i < unat sz\<close> show "((h1, dst, src, sz, i + 1), (h, dst, src, sz, i))
      \<in> measure (\<lambda>(h, dst, src, sz, i). unat sz - unat i)"
    by simp
qed simp

text \<open>
  \<^verbatim>\<open>neon_memory_f32\<close>: the part after the alignment test is
  \<open>neon_memory_f32_vector\<close>; the fallback is \<^verbatim>\<open>memcpy\<close>.
\<close>

definition neon_memory_f32_vector :: "heap \<Rightarrow> pointer \<Rightarrow> pointer \<Rightarrow> size_t \<Rightarrow> heap option" where
  "neon_memory_f32_vector h dst src sz =
     do {
       (h1, i) \<leftarrow> copy_loop16 h dst src sz 0;
       (h2, i) \<leftarrow> copy_loop4 h1 dst src sz i;
       copy_loop1 h2 dst src sz i
     }"

definition neon_memory_f32 :: "heap \<Rightarrow> pointer \<Rightarrow> pointer \<Rightarrow> size_t \<Rightarrow> heap option" where
  "neon_memory_f32 h dst src sz =
     (if \<not> IS_ALIGNED dst \<or> \<not> IS_ALIGNED src then memcpy h dst src (sz * sizeof_float)
      else neon_memory_f32_vector h dst src sz)"

function fill_loop16 ::
  "heap \<Rightarrow> pointer \<Rightarrow> float32x4_t \<Rightarrow> size_t \<Rightarrow> size_t \<Rightarrow> (heap \<times> size_t) option" where
  "fill_loop16 h dst v sz i =
     (if i + 16 \<le> sz then
        do {
          h1 \<leftarrow> vst1q_f32 h (ptr_add dst i) v;
          h2 \<leftarrow> vst1q_f32 h1 (ptr_add (ptr_add dst i) 4) v;
          h3 \<leftarrow> vst1q_f32 h2 (ptr_add (ptr_add dst i) 8) v;
          h4 \<leftarrow> vst1q_f32 h3 (ptr_add (ptr_add dst i) 12) v;
          fill_loop16 h4 dst v sz (i + 16)
        }
      else Some (h, i))"
  by pat_completeness auto
termination
proof (relation "measure (\<lambda>(h, dst, v, sz, i). 2 ^ 64 - unat i)")
  fix h :: heap and dst :: pointer and v sz and i :: size_t and h1 h2 h3 h4
  assume "vst1q_f32 h3 (ptr_add (ptr_add dst i) 12) v = Some h4"
  then have "unat i + unat (16 :: size_t) < 2 ^ LENGTH(64)"
    by (cases v)
      (auto simp: ptr_add_def store_f32_def max_elems_def split: bind_splits option.splits if_splits)
  then have "unat (i + 16) = unat i + 16"
    by (simp only: unat_add_lem) simp
  moreover have "unat (i + 16) < 2 ^ 64" using unsigned_less [of "i + 16"] by simp
  ultimately show "((h4, dst, v, sz, i + 16), (h, dst, v, sz, i))
      \<in> measure (\<lambda>(h, dst, v, sz, i). 2 ^ 64 - unat i)"
    by simp
qed simp

function fill_loop4 ::
  "heap \<Rightarrow> pointer \<Rightarrow> float32x4_t \<Rightarrow> size_t \<Rightarrow> size_t \<Rightarrow> (heap \<times> size_t) option" where
  "fill_loop4 h dst v sz i =
     (if i + 4 \<le> sz then
        do {
          h1 \<leftarrow> vst1q_f32 h (ptr_add dst i) v;
          fill_loop4 h1 dst v sz (i + 4)
        }
      else Some (h, i))"
  by pat_completeness auto
termination
proof (relation "measure (\<lambda>(h, dst, v, sz, i). 2 ^ 64 - unat i)")
  fix h :: heap and dst :: pointer and v sz and i :: size_t and h1
  assume "vst1q_f32 h (ptr_add dst i) v = Some h1"
  then have "unat i + unat (4 :: size_t) < 2 ^ LENGTH(64)"
    by (cases v)
      (auto simp: ptr_add_def store_f32_def max_elems_def split: bind_splits option.splits if_splits)
  then have "unat (i + 4) = unat i + 4"
    by (simp only: unat_add_lem) simp
  moreover have "unat (i + 4) < 2 ^ 64" using unsigned_less [of "i + 4"] by simp
  ultimately show "((h1, dst, v, sz, i + 4), (h, dst, v, sz, i))
      \<in> measure (\<lambda>(h, dst, v, sz, i). 2 ^ 64 - unat i)"
    by simp
qed simp

function fill_loop1 :: "heap \<Rightarrow> pointer \<Rightarrow> f32 \<Rightarrow> size_t \<Rightarrow> size_t \<Rightarrow> heap option" where
  "fill_loop1 h dst v sz i =
     (if i < sz then
        do {
          h1 \<leftarrow> store_f32 h (ptr_add dst i) v;
          fill_loop1 h1 dst v sz (i + 1)
        }
      else Some h)"
  by pat_completeness auto
termination
proof (relation "measure (\<lambda>(h, dst, v, sz, i). unat sz - unat i)")
  fix h :: heap and dst :: pointer and v :: f32 and sz i :: size_t and h1 :: heap
  assume "i < sz"
  then have "unat i < unat sz" by (simp add: word_less_nat_alt)
  moreover have "unat sz < 2 ^ 64" using unsigned_less [of sz] by simp
  ultimately have "unat (i + 1) = unat i + 1"
    by (simp add: unat_add_lem [THEN iffD1])
  with \<open>unat i < unat sz\<close> show "((h1, dst, v, sz, i + 1), (h, dst, v, sz, i))
      \<in> measure (\<lambda>(h, dst, v, sz, i). unat sz - unat i)"
    by simp
qed simp

text \<open>
  \<^verbatim>\<open>neon_fill_f32\<close>: the fallback loop for an unaligned \<open>dst\<close> is
  \<open>neon_fill_f32_scalar\<close>, the rest is \<open>neon_fill_f32_vector\<close>.
\<close>

definition neon_fill_f32_scalar :: "heap \<Rightarrow> pointer \<Rightarrow> f32 \<Rightarrow> size_t \<Rightarrow> heap option" where
  "neon_fill_f32_scalar h dst val sz = fill_loop1 h dst val sz 0"

definition neon_fill_f32_vector :: "heap \<Rightarrow> pointer \<Rightarrow> f32 \<Rightarrow> size_t \<Rightarrow> heap option" where
  "neon_fill_f32_vector h dst val sz =
     do {
       (h1, i) \<leftarrow> fill_loop16 h dst (vdupq_n_f32 val) sz 0;
       (h2, i) \<leftarrow> fill_loop4 h1 dst (vdupq_n_f32 val) sz i;
       fill_loop1 h2 dst val sz i
     }"

definition neon_fill_f32 :: "heap \<Rightarrow> pointer \<Rightarrow> f32 \<Rightarrow> size_t \<Rightarrow> heap option" where
  "neon_fill_f32 h dst val sz =
     (if \<not> IS_ALIGNED dst then neon_fill_f32_scalar h dst val sz
      else neon_fill_f32_vector h dst val sz)"


subsection \<open>What a fill and a copy leave\<close>

text \<open>
  \<open>filled h dst v k\<close> is the heap \<open>h\<close> with the \<open>k\<close> cells from \<open>dst\<close> set to \<open>v\<close>, and
  \<open>copied h dst src k\<close> the heap \<open>h\<close> with the \<open>k\<close> cells from \<open>dst\<close> set to the \<open>k\<close>
  cells that \<open>h\<close> has from \<open>src\<close>. \<open>elem h p j\<close> is the cell \<open>p[j]\<close> of \<open>h\<close>.
\<close>

primrec fill_cells :: "f32 list \<Rightarrow> nat \<Rightarrow> f32 \<Rightarrow> nat \<Rightarrow> f32 list" where
  "fill_cells cs od v 0 = cs"
| "fill_cells cs od v (Suc k) = (fill_cells cs od v k)[od + k := v]"

definition filled :: "heap \<Rightarrow> pointer \<Rightarrow> f32 \<Rightarrow> nat \<Rightarrow> heap" where
  "filled h dst v k =
     (case h (blk dst) of
        None \<Rightarrow> h
      | Some cs \<Rightarrow> h(blk dst \<mapsto> fill_cells cs (off dst) v k))"

definition copied :: "heap \<Rightarrow> pointer \<Rightarrow> pointer \<Rightarrow> nat \<Rightarrow> heap" where
  "copied h dst src k =
     (case (h (blk dst), h (blk src)) of
        (Some dcs, Some scs) \<Rightarrow> h(blk dst \<mapsto> copy_cells dcs (off dst) scs (off src) k)
      | _ \<Rightarrow> h)"

definition elem :: "heap \<Rightarrow> pointer \<Rightarrow> nat \<Rightarrow> f32" where
  "elem h p j = (case h (blk p) of None \<Rightarrow> 0 | Some cs \<Rightarrow> cs ! (off p + j))"

definition src_vec :: "heap \<Rightarrow> pointer \<Rightarrow> nat \<Rightarrow> float32x4_t" where
  "src_vec h src j = Vec4 (elem h src j) (elem h src (j + 1)) (elem h src (j + 2)) (elem h src (j + 3))"

text \<open>
  Two valid, non-overlapping spans of \<open>n\<close> floats: \<open>dst\<close> and \<open>src\<close> point into live
  objects, the \<open>n\<close> elements from each pointer lie inside its object, and the spans
  are in different objects or disjoint parts of one.
\<close>

definition spans_ok :: "heap \<Rightarrow> pointer \<Rightarrow> pointer \<Rightarrow> nat \<Rightarrow> bool" where
  "spans_ok h dst src n \<longleftrightarrow>
     (case (h (blk dst), h (blk src)) of
        (Some dcs, Some scs) \<Rightarrow>
          off dst + n \<le> length dcs \<and> off src + n \<le> length scs
          \<and> off dst + n \<le> max_elems \<and> off src + n \<le> max_elems
          \<and> (blk dst \<noteq> blk src \<or> off dst + n \<le> off src \<or> off src + n \<le> off dst)
      | _ \<Rightarrow> False)"

text \<open>A heap with two blocks of 24 floats, and what the examples below leave of it.\<close>

definition block_a :: "f32 list" where
  "block_a = [10, 11, 12, 13, 14, 15, 16, 17, 18, 19, 20, 21, 22, 23, 24, 25, 26, 27, 28, 29, 30, 31, 32, 33]"

definition block_z :: "f32 list" where
  "block_z = [0, 0, 0, 0, 0, 0, 0, 0, 0, 0, 0, 0, 0, 0, 0, 0, 0, 0, 0, 0, 0, 0, 0, 0]"

definition heap2 :: heap where
  "heap2 = Map.empty(0x3000 \<mapsto> block_a, 0x4000 \<mapsto> block_z)"

definition sevens_from_0 :: "f32 list" where
  "sevens_from_0 = [7, 7, 7, 7, 7, 7, 7, 7, 7, 7, 7, 7, 7, 7, 7, 7, 7, 7, 7, 7, 7, 0, 0, 0]"

definition sevens_from_1 :: "f32 list" where
  "sevens_from_1 = [0, 7, 7, 7, 7, 7, 7, 7, 7, 7, 7, 7, 7, 7, 7, 7, 7, 7, 7, 7, 7, 7, 0, 0]"

definition a_copied :: "f32 list" where
  "a_copied = [10, 11, 12, 13, 14, 15, 16, 17, 18, 19, 20, 21, 22, 23, 24, 25, 26, 27, 28, 29, 30, 0, 0, 0]"

definition a_shifted :: "f32 list" where
  "a_shifted = [10, 11, 12, 13, 14, 15, 16, 17, 18, 19, 20, 21, 22, 11, 12, 13, 14, 15, 28, 29, 30, 31, 32, 33]"


section \<open>IEEE-754 binary32 arithmetic\<close>

text \<open>
  The intrinsics are those of the AArch64 instructions, in the default floating-point
  mode (round to nearest, ties to even; no flush to zero; no default NaN). A float is
  its bit pattern: sign bit, eight exponent bits, 23 fraction bits. A finite float
  is the dyadic number \<open>\<plusminus> mant * 2 ^ expo\<close>; sums and products of dyadic numbers are
  exact, and \<open>f32_round\<close> rounds one to the nearest float.
\<close>

definition f32_sign :: "f32 \<Rightarrow> bool" where
  "f32_sign w \<longleftrightarrow> 2 ^ 31 \<le> unat w"

definition f32_exp :: "f32 \<Rightarrow> nat" where
  "f32_exp w = unat w div 2 ^ 23 mod 256"

definition f32_frac :: "f32 \<Rightarrow> nat" where
  "f32_frac w = unat w mod 2 ^ 23"

definition is_nan :: "f32 \<Rightarrow> bool" where
  "is_nan w \<longleftrightarrow> f32_exp w = 255 \<and> f32_frac w \<noteq> 0"

definition is_snan :: "f32 \<Rightarrow> bool" where
  "is_snan w \<longleftrightarrow> is_nan w \<and> f32_frac w < 2 ^ 22"

definition is_inf :: "f32 \<Rightarrow> bool" where
  "is_inf w \<longleftrightarrow> f32_exp w = 255 \<and> f32_frac w = 0"

definition is_finite :: "f32 \<Rightarrow> bool" where
  "is_finite w \<longleftrightarrow> f32_exp w < 255"

definition is_zero :: "f32 \<Rightarrow> bool" where
  "is_zero w \<longleftrightarrow> f32_exp w = 0 \<and> f32_frac w = 0"

definition mant :: "f32 \<Rightarrow> nat" where
  "mant w = (if f32_exp w = 0 then f32_frac w else 2 ^ 23 + f32_frac w)"

definition expo :: "f32 \<Rightarrow> int" where
  "expo w = (if f32_exp w = 0 then - 149 else int (f32_exp w) - 150)"

type_synonym dyadic = "int \<times> int"

definition dy :: "f32 \<Rightarrow> dyadic" where
  "dy w = (if f32_sign w then - int (mant w) else int (mant w), expo w)"

fun dy_mul :: "dyadic \<Rightarrow> dyadic \<Rightarrow> dyadic" where
  "dy_mul (m1, e1) (m2, e2) = (m1 * m2, e1 + e2)"

fun dy_add :: "dyadic \<Rightarrow> dyadic \<Rightarrow> dyadic" where
  "dy_add (m1, e1) (m2, e2) =
     (m1 * 2 ^ nat (e1 - min e1 e2) + m2 * 2 ^ nat (e2 - min e1 e2), min e1 e2)"

fun dy_less :: "dyadic \<Rightarrow> dyadic \<Rightarrow> bool" where
  "dy_less (m1, e1) (m2, e2) \<longleftrightarrow>
     m1 * 2 ^ nat (e1 - min e1 e2) < m2 * 2 ^ nat (e2 - min e1 e2)"

text \<open>
  Rounding: \<open>bitlen m\<close> is the number of bits of \<open>m\<close>; the result keeps 24 bits, or
  fewer below the smallest normal exponent. \<open>round_mag\<close> gives the bits below the
  sign bit, which count up through the subnormal and normal floats to infinity
  (\<open>255 * 2 ^ 23\<close>).
\<close>

fun bitlen :: "nat \<Rightarrow> nat" where
  "bitlen n = (if n = 0 then 0 else Suc (bitlen (n div 2)))"

declare bitlen.simps [simp del]

definition rne_shift :: "nat \<Rightarrow> nat \<Rightarrow> nat" where
  "rne_shift m n =
     (let q = m div 2 ^ n; r = m mod 2 ^ n
      in if 2 ^ n < 2 * r \<or> (2 * r = 2 ^ n \<and> odd q) then q + 1 else q)"

definition round_mag :: "nat \<Rightarrow> int \<Rightarrow> nat" where
  "round_mag m e =
     (if m = 0 then 0
      else
        let e' = max (e + int (bitlen m) - 24) (- 149);
            m' = (if e' \<le> e then m * 2 ^ nat (e - e') else rne_shift m (nat (e' - e)));
            b = nat (e' + 149) * 2 ^ 23 + m'
        in if 255 * 2 ^ 23 \<le> b then 255 * 2 ^ 23 else b)"

definition f32_pack :: "bool \<Rightarrow> nat \<Rightarrow> f32" where
  "f32_pack s b = of_nat ((if s then 2 ^ 31 else 0) + b)"

definition f32_zero :: "bool \<Rightarrow> f32" where
  "f32_zero s = f32_pack s 0"

definition f32_infinity :: "bool \<Rightarrow> f32" where
  "f32_infinity s = f32_pack s (255 * 2 ^ 23)"

definition f32_default_nan :: f32 where
  "f32_default_nan = 0x7FC00000"

fun f32_round :: "dyadic \<Rightarrow> f32" where
  "f32_round (m, e) = f32_pack (m < 0) (round_mag (nat \<bar>m\<bar>) e)"

text \<open>
  NaN operands: a signalling NaN is returned quietened, before a quiet one, first
  operand first (for a fused multiply-add the addend is the first operand).
\<close>

definition quiet :: "f32 \<Rightarrow> f32" where
  "quiet w = w OR 0x00400000"

definition process_nans :: "f32 \<Rightarrow> f32 \<Rightarrow> f32 option" where
  "process_nans a b =
     (if is_snan a then Some (quiet a)
      else if is_snan b then Some (quiet b)
      else if is_nan a then Some a
      else if is_nan b then Some b
      else None)"

definition process_nans3 :: "f32 \<Rightarrow> f32 \<Rightarrow> f32 \<Rightarrow> f32 option" where
  "process_nans3 a b c =
     (if is_snan a then Some (quiet a)
      else if is_snan b then Some (quiet b)
      else if is_snan c then Some (quiet c)
      else if is_nan a then Some a
      else if is_nan b then Some b
      else if is_nan c then Some c
      else None)"

text \<open>Comparison of two operands that are not NaNs.\<close>

definition f32_lt :: "f32 \<Rightarrow> f32 \<Rightarrow> bool" where
  "f32_lt a b =
     (if is_inf a then f32_sign a \<and> \<not> (is_inf b \<and> f32_sign b)
      else if is_inf b then \<not> f32_sign b
      else dy_less (dy a) (dy b))"

text \<open>
  \<open>fadd\<close>, \<open>fmul\<close>, \<open>fmuladd a b c\<close> (\<open>a + b * c\<close>, rounded once), \<open>fmax\<close>, \<open>fmin\<close> and
  \<open>fcmgt\<close> are FADD, FMUL, FMLA, FMAX, FMIN and FCMGT on one lane.
\<close>

definition fadd :: "f32 \<Rightarrow> f32 \<Rightarrow> f32" where
  "fadd a b =
     (case process_nans a b of
        Some r \<Rightarrow> r
      | None \<Rightarrow>
          if is_inf a \<and> is_inf b \<and> f32_sign a \<noteq> f32_sign b then f32_default_nan
          else if is_inf a then f32_infinity (f32_sign a)
          else if is_inf b then f32_infinity (f32_sign b)
          else if is_zero a \<and> is_zero b \<and> f32_sign a = f32_sign b then f32_zero (f32_sign a)
          else if fst (dy_add (dy a) (dy b)) = 0 then f32_zero False
          else f32_round (dy_add (dy a) (dy b)))"

definition fmul :: "f32 \<Rightarrow> f32 \<Rightarrow> f32" where
  "fmul a b =
     (case process_nans a b of
        Some r \<Rightarrow> r
      | None \<Rightarrow>
          if (is_inf a \<and> is_zero b) \<or> (is_zero a \<and> is_inf b) then f32_default_nan
          else if is_inf a \<or> is_inf b then f32_infinity (f32_sign a \<noteq> f32_sign b)
          else if is_zero a \<or> is_zero b then f32_zero (f32_sign a \<noteq> f32_sign b)
          else f32_round (dy_mul (dy a) (dy b)))"

definition fmuladd :: "f32 \<Rightarrow> f32 \<Rightarrow> f32 \<Rightarrow> f32" where
  "fmuladd a b c =
     (let signP = (f32_sign b \<noteq> f32_sign c);
          infP = (is_inf b \<or> is_inf c);
          zeroP = (is_zero b \<or> is_zero c);
          invalidP = ((is_inf b \<and> is_zero c) \<or> (is_zero b \<and> is_inf c))
      in if is_nan a \<and> \<not> is_snan a \<and> invalidP then f32_default_nan
         else
           (case process_nans3 a b c of
              Some r \<Rightarrow> r
            | None \<Rightarrow>
                if invalidP \<or> (is_inf a \<and> infP \<and> f32_sign a \<noteq> signP) then f32_default_nan
                else if (is_inf a \<and> \<not> f32_sign a) \<or> (infP \<and> \<not> signP) then f32_infinity False
                else if (is_inf a \<and> f32_sign a) \<or> (infP \<and> signP) then f32_infinity True
                else if is_zero a \<and> zeroP \<and> f32_sign a = signP then f32_zero (f32_sign a)
                else if fst (dy_add (dy a) (dy_mul (dy b) (dy c))) = 0 then f32_zero False
                else f32_round (dy_add (dy a) (dy_mul (dy b) (dy c)))))"

definition fmax :: "f32 \<Rightarrow> f32 \<Rightarrow> f32" where
  "fmax a b =
     (case process_nans a b of
        Some r \<Rightarrow> r
      | None \<Rightarrow>
          if f32_lt b a then a
          else if is_zero a \<and> is_zero b then f32_zero (f32_sign a \<and> f32_sign b)
          else b)"

definition fmin :: "f32 \<Rightarrow> f32 \<Rightarrow> f32" where
  "fmin a b =
     (case process_nans a b of
        Some r \<Rightarrow> r
      | None \<Rightarrow>
          if f32_lt a b then a
          else if is_zero a \<and> is_zero b then f32_zero (f32_sign a \<or> f32_sign b)
          else b)"

definition fcmgt :: "f32 \<Rightarrow> f32 \<Rightarrow> bool" where
  "fcmgt a b \<longleftrightarrow> \<not> is_nan a \<and> \<not> is_nan b \<and> f32_lt b a"

definition f32_of_int :: "int \<Rightarrow> f32" where
  "f32_of_int n = (if n = 0 then f32_zero False else f32_round (n, 0))"


text \<open>Literals of the source, as bit patterns.\<close>

definition f32_88 :: f32 where
  "f32_88 = 0x42B00000"

definition f32_minus_88 :: f32 where
  "f32_minus_88 = 0xC2B00000"

definition f32_1 :: f32 where
  "f32_1 = 0x3F800000"

definition f32_0_5 :: f32 where
  "f32_0_5 = 0x3F000000"

definition f32_0_16666667 :: f32 where
  "f32_0_16666667 = 0x3E2AAAAB"

definition f32_0_04166667 :: f32 where
  "f32_0_04166667 = 0x3D2AAAAC"

section \<open>Vector intrinsics\<close>

text \<open>
  \<^verbatim>\<open>vfmaq_f32(a, b, c)\<close> is \<open>a + b * c\<close> in each lane. \<^verbatim>\<open>vcgtq_f32\<close> gives a lane of
  ones where the comparison holds; \<^verbatim>\<open>vbslq_f32\<close> takes each bit from its second
  operand where the mask bit is set and from its third where it is clear. The
  reductions across a vector combine lanes 0 and 1, lanes 2 and 3, and then the two
  results.
\<close>

fun map2_vec4 :: "('a \<Rightarrow> 'b \<Rightarrow> 'c) \<Rightarrow> 'a vec4 \<Rightarrow> 'b vec4 \<Rightarrow> 'c vec4" where
  "map2_vec4 f (Vec4 a0 a1 a2 a3) (Vec4 b0 b1 b2 b3) = Vec4 (f a0 b0) (f a1 b1) (f a2 b2) (f a3 b3)"

fun map3_vec4 :: "('a \<Rightarrow> 'b \<Rightarrow> 'c \<Rightarrow> 'd) \<Rightarrow> 'a vec4 \<Rightarrow> 'b vec4 \<Rightarrow> 'c vec4 \<Rightarrow> 'd vec4" where
  "map3_vec4 f (Vec4 a0 a1 a2 a3) (Vec4 b0 b1 b2 b3) (Vec4 c0 c1 c2 c3) =
     Vec4 (f a0 b0 c0) (f a1 b1 c1) (f a2 b2 c2) (f a3 b3 c3)"

definition vmulq_f32 :: "float32x4_t \<Rightarrow> float32x4_t \<Rightarrow> float32x4_t" where
  "vmulq_f32 a b = map2_vec4 fmul a b"

definition vminq_f32 :: "float32x4_t \<Rightarrow> float32x4_t \<Rightarrow> float32x4_t" where
  "vminq_f32 a b = map2_vec4 fmin a b"

definition vmaxq_f32 :: "float32x4_t \<Rightarrow> float32x4_t \<Rightarrow> float32x4_t" where
  "vmaxq_f32 a b = map2_vec4 fmax a b"

definition vfmaq_f32 :: "float32x4_t \<Rightarrow> float32x4_t \<Rightarrow> float32x4_t \<Rightarrow> float32x4_t" where
  "vfmaq_f32 a b c = map3_vec4 fmuladd a b c"

definition vcgtq_f32 :: "float32x4_t \<Rightarrow> float32x4_t \<Rightarrow> uint32x4_t" where
  "vcgtq_f32 a b = map2_vec4 (\<lambda>x y. if fcmgt x y then 0xFFFFFFFF else 0) a b"

definition vbslq_f32 :: "uint32x4_t \<Rightarrow> float32x4_t \<Rightarrow> float32x4_t \<Rightarrow> float32x4_t" where
  "vbslq_f32 msk a b = map3_vec4 (\<lambda>m x y. (x AND m) OR (y AND NOT m)) msk a b"

fun vaddvq_f32 :: "float32x4_t \<Rightarrow> f32" where
  "vaddvq_f32 (Vec4 a b c d) = fadd (fadd a b) (fadd c d)"

fun vmaxvq_f32 :: "float32x4_t \<Rightarrow> f32" where
  "vmaxvq_f32 (Vec4 a b c d) = fmax (fmax a b) (fmax c d)"

fun vminvq_f32 :: "float32x4_t \<Rightarrow> f32" where
  "vminvq_f32 (Vec4 a b c d) = fmin (fmin a b) (fmin c d)"

section \<open>The primitives of neon\_utils.h\<close>

text \<open>The \<^verbatim>\<open>__aarch64__\<close> branch of each reduction.\<close>

definition NEON_ZEROS :: float32x4_t where
  "NEON_ZEROS = Vec4 0 0 0 0"

definition neon_sum_f32x4 :: "float32x4_t \<Rightarrow> f32" where
  "neon_sum_f32x4 vec = vaddvq_f32 vec"

definition neon_max_f32x4 :: "float32x4_t \<Rightarrow> f32" where
  "neon_max_f32x4 vec = vmaxvq_f32 vec"

definition neon_min_f32x4 :: "float32x4_t \<Rightarrow> f32" where
  "neon_min_f32x4 vec = vminvq_f32 vec"

definition neon_cmpgt_f32x4 :: "float32x4_t \<Rightarrow> float32x4_t \<Rightarrow> uint32x4_t" where
  "neon_cmpgt_f32x4 a b = vcgtq_f32 a b"

definition neon_select_f32x4 :: "uint32x4_t \<Rightarrow> float32x4_t \<Rightarrow> float32x4_t \<Rightarrow> float32x4_t" where
  "neon_select_f32x4 msk a b = vbslq_f32 msk a b"

definition neon_exp_f32x4 :: "float32x4_t \<Rightarrow> float32x4_t" where
  "neon_exp_f32x4 x0 =
     (let x = vminq_f32 x0 (vdupq_n_f32 f32_88);
          x = vmaxq_f32 x (vdupq_n_f32 f32_minus_88);
          c1 = vdupq_n_f32 f32_1;
          c2 = vdupq_n_f32 f32_0_5;
          c3 = vdupq_n_f32 f32_0_16666667;
          c4 = vdupq_n_f32 f32_0_04166667;
          x2 = vmulq_f32 x x;
          x3 = vmulq_f32 x2 x;
          x4 = vmulq_f32 x3 x;
          result = c1;
          result = vfmaq_f32 result x c1;
          result = vfmaq_f32 result x2 c2;
          result = vfmaq_f32 result x3 c3;
          result = vfmaq_f32 result x4 c4
      in result)"

definition neon_dot_f32x4 :: "float32x4_t \<Rightarrow> float32x4_t \<Rightarrow> f32" where
  "neon_dot_f32x4 a b = (let prod = vmulq_f32 a b in neon_sum_f32x4 prod)"

section \<open>Notions of the claims about floats\<close>

text \<open>
  The real value of a finite float and of a dyadic number; \<open>x > 0\<close> for a float;
  the result the spec gives for \<open>select(x > 0, x, 0)\<close>; the clamp to \<open>[-88, 88]\<close> and
  the degree-4 polynomial of \<^verbatim>\<open>neon_exp_f32x4\<close> on one lane.
\<close>

fun dyv :: "dyadic \<Rightarrow> real" where
  "dyv (m, e) = real_of_int m * 2 powi e"

definition f32_val :: "f32 \<Rightarrow> real" where
  "f32_val w = (if f32_sign w then - 1 else 1) * real (mant w) * 2 powi expo w"

definition positive :: "f32 \<Rightarrow> bool" where
  "positive v \<longleftrightarrow> \<not> is_nan v \<and> \<not> f32_sign v \<and> \<not> is_zero v"

definition relu :: "f32 \<Rightarrow> f32" where
  "relu v = (if positive v then v else 0)"

definition clamp88 :: "f32 \<Rightarrow> f32" where
  "clamp88 x = fmax (fmin x f32_88) f32_minus_88"

definition maclaurin4 :: "f32 \<Rightarrow> f32" where
  "maclaurin4 x =
     fmuladd
       (fmuladd
          (fmuladd (fmuladd f32_1 x f32_1) (fmul x x) f32_0_5)
          (fmul (fmul x x) x) f32_0_16666667)
       (fmul (fmul (fmul x x) x) x) f32_0_04166667"

section \<open>Allocation failure and the null buffer\<close>

lemma posix_memalign_failure:
  "posix_memalign c h p a n = (rc, q, h') \<Longrightarrow> rc \<noteq> 0 \<Longrightarrow> h' = h \<and> q = p"
  by (auto simp: posix_memalign_def split: if_splits alloc_choice.splits)

lemma posix_memalign_success:
  "posix_memalign c h p a n = (0, q, h') \<Longrightarrow>
     \<exists>b stale. c = Place b stale \<and> b \<noteq> 0 \<and> h b = None \<and> q = \<lparr>blk = b, off = 0\<rparr>
       \<and> h' = h(b \<mapsto> fresh_cells stale (unat n div 4))"
  by (auto simp: posix_memalign_def EINVAL_def ENOMEM_def split: if_splits alloc_choice.splits)

lemma aligned_malloc_null:
  "aligned_malloc c h n a = (NULL, h') \<Longrightarrow> h' = h"
  by (auto simp: aligned_malloc_def posix_memalign_def NULL_def
      split: if_splits alloc_choice.splits prod.splits)

lemma aligned_malloc_nonnull:
  assumes "aligned_malloc c h n a = (p, h')" and "p \<noteq> NULL"
  shows "\<exists>b stale. c = Place b stale \<and> b \<noteq> 0 \<and> h b = None \<and> p = \<lparr>blk = b, off = 0\<rparr>
           \<and> h' = h(b \<mapsto> fresh_cells stale (unat n div 4))"
  using assms
  by (auto simp: aligned_malloc_def posix_memalign_def NULL_def
      split: if_splits alloc_choice.splits prod.splits)

text \<open>
  C3. \<^verbatim>\<open>aligned_buffer_resize\<close> returns \<^verbatim>\<open>NEON_ERROR_NULL_POINTER\<close> for a null
  buffer. When it has to grow and the allocation fails (\<^verbatim>\<open>neon_malloc\<close> gives null) it
  returns \<^verbatim>\<open>NEON_ERROR_OUT_OF_MEMORY\<close> and the buffer (data, size and capacity) and the
  heap are as they were.
\<close>

theorem resize_null_and_out_of_memory:
  "aligned_buffer_resize c h None n = Some (NEON_ERROR_NULL_POINTER, None, h)
   \<and> (capacity b < n \<and> fst (neon_malloc c h (n * sizeof_float)) = NULL
        \<longrightarrow> aligned_buffer_resize c h (Some b) n = Some (NEON_ERROR_OUT_OF_MEMORY, Some b, h))"
proof (intro conjI impI)
  show "aligned_buffer_resize c h None n = Some (NEON_ERROR_NULL_POINTER, None, h)"
    by (simp add: aligned_buffer_resize_def)
next
  assume a: "capacity b < n \<and> fst (neon_malloc c h (n * sizeof_float)) = NULL"
  obtain p h1 where m: "neon_malloc c h (n * sizeof_float) = (p, h1)"
    by (cases "neon_malloc c h (n * sizeof_float)")
  with a have p: "p = NULL" by simp
  with m have "h1 = h"
    by (auto simp: neon_malloc_def dest: aligned_malloc_null)
  with a m p show "aligned_buffer_resize c h (Some b) n = Some (NEON_ERROR_OUT_OF_MEMORY, Some b, h)"
    by (simp add: aligned_buffer_resize_def not_le [symmetric])
qed

theorem resize_null_and_out_of_memory_witness:
  "capacity buffer0 < 8 \<and> fst (neon_malloc Refuse heap0 (8 * sizeof_float)) = NULL
   \<and> aligned_buffer_resize Refuse heap0 None 8 = Some (NEON_ERROR_NULL_POINTER, None, heap0)
   \<and> aligned_buffer_resize Refuse heap0 (Some buffer0) 8
       = Some (NEON_ERROR_OUT_OF_MEMORY, Some buffer0, heap0)"
proof -
  have 1: "capacity buffer0 < 8" by (simp add: buffer0_def)
  have 2: "fst (neon_malloc Refuse heap0 (8 * sizeof_float)) = NULL"
    by (simp add: neon_malloc_def aligned_malloc_def posix_memalign_def NEON_ALIGNMENT_def)
  from 1 2 resize_null_and_out_of_memory [of Refuse heap0 8 buffer0] show ?thesis by simp
qed

section \<open>The size field is not touched by a resize\<close>

text \<open>
  C10. Whatever \<^verbatim>\<open>aligned_buffer_resize\<close> returns for a buffer (success without
  growing, success after growing, or an error code), the buffer's \<^verbatim>\<open>size\<close> is the
  one it had before the call.
\<close>

theorem resize_keeps_size:
  "aligned_buffer_resize c h (Some b) n = Some (e, bo, h')
     \<Longrightarrow> \<exists>b'. bo = Some b' \<and> size' b' = size' b"
  by (auto simp: aligned_buffer_resize_def split: if_splits prod.splits bind_splits)

lemma copy_cells_numeral:
  "copy_cells d od s os (numeral n)
     = (copy_cells d od s os (pred_numeral n))[od + pred_numeral n := s ! (os + pred_numeral n)]"
  by (simp add: numeral_eq_Suc)

lemma replicate_numeral':
  "replicate (numeral n) x = x # replicate (pred_numeral n) x"
  by (simp add: numeral_eq_Suc)

lemma resize_example:
  "aligned_buffer_resize (Place 0x2000 [9, 8, 7]) heap0 (Some buffer0) 8
     = Some (NEON_SUCCESS, Some grown0, heap1)"
  by (simp add: aligned_buffer_resize_def neon_malloc_def aligned_malloc_def posix_memalign_def
      NEON_ALIGNMENT_def sizeof_float_def heap0_def buffer0_def grown0_def heap1_def NULL_def
      memcpy_def fresh_cells_def neon_free_def aligned_free_def free_block_def
      copy_cells_numeral replicate_numeral' fun_upd_twist)

theorem resize_keeps_size_witness:
  "aligned_buffer_resize (Place 0x2000 [9, 8, 7]) heap0 (Some buffer0) 8
     = Some (NEON_SUCCESS, Some grown0, heap1)
   \<and> size' grown0 = size' buffer0"
  using resize_keeps_size [OF resize_example] resize_example by simp

section \<open>Destroying a buffer twice\<close>

text \<open>
  The first destroy of a buffer that owns a block releases the block and leaves the
  pointer in the buffer; the second destroy passes that pointer to \<^verbatim>\<open>free\<close> again.
\<close>

lemma destroy_twice:
  assumes "data b \<noteq> NULL" and "aligned_buffer_destroy h (Some b) = Some (bo, h')"
  shows "\<exists>b'. bo = Some b' \<and> data b' = data b \<and> aligned_buffer_destroy h' bo = None"
  using assms
  by (auto simp: aligned_buffer_destroy_def neon_free_def aligned_free_def free_block_def
      split: if_splits option.splits bind_splits)

text \<open>
  C1, evaluated on \<open>buffer0\<close>: after the first \<^verbatim>\<open>aligned_buffer_destroy\<close> the buffer
  has size 0 and capacity 0 but still holds the pointer to the released block, and the
  second \<^verbatim>\<open>aligned_buffer_destroy\<close> frees that block a second time, which has no
  defined meaning.
\<close>

theorem destroy_twice_frees_twice:
  "aligned_buffer_destroy heap0 (Some buffer0)
     = Some (Some (buffer0\<lparr>size' := 0, capacity := 0\<rparr>), heap0(0x1000 := None))
   \<and> data (buffer0\<lparr>size' := 0, capacity := 0\<rparr>) = \<lparr>blk = 0x1000, off = 0\<rparr>
   \<and> aligned_buffer_destroy (heap0(0x1000 := None)) (Some (buffer0\<lparr>size' := 0, capacity := 0\<rparr>))
     = None"
  by (simp add: aligned_buffer_destroy_def neon_free_def aligned_free_def free_block_def
      heap0_def buffer0_def NULL_def)

section \<open>The alignment check of \<^verbatim>\<open>aligned_malloc\<close>\<close>

lemma nat_and_pred_zero:
  fixes n :: nat
  shows "0 < n \<Longrightarrow> n AND (n - 1) = 0 \<Longrightarrow> \<exists>k. n = 2 ^ k"
proof (induction n rule: less_induct)
  case (less n)
  show ?case
  proof (cases "even n")
    case True
    then obtain m where m: "n = 2 * m" by (auto elim: evenE)
    with less.prems have m0: "0 < m" by simp
    have pred: "(n - 1) div 2 = m - 1" using m m0 by (cases m) auto
    have "n AND (n - 1) = 2 * (m AND (m - 1))"
      using m pred by (subst and_rec) simp
    with less.prems have "m AND (m - 1) = 0" by simp
    moreover have "m < n" using m m0 by simp
    ultimately obtain k where "m = 2 ^ k" using less.IH m0 by blast
    with m have "n = 2 ^ Suc k" by simp
    then show ?thesis by blast
  next
    case False
    then obtain m where m: "n = 2 * m + 1" by (auto elim: oddE)
    have "n AND (n - 1) = 2 * (m AND m)"
      using m by (subst and_rec) simp
    with less.prems have "m = 0" by simp
    with m have "n = 2 ^ 0" by simp
    then show ?thesis by blast
  qed
qed

lemma word_and_pred_zero:
  fixes a :: "64 word"
  assumes "a \<noteq> 0" and "a AND (a - 1) = 0"
  shows "\<exists>k<64. a = 2 ^ k"
proof -
  have pos: "0 < unat a" using assms(1) by (simp add: unat_gt_0)
  have "unat (a - 1) = unat a - 1" using assms(1) by (simp add: unat_minus_one)
  then have "unat a AND (unat a - 1) = unat (a AND (a - 1))"
    by (simp add: unsigned_and_eq)
  with assms(2) have "unat a AND (unat a - 1) = 0" by simp
  with pos obtain k where k: "unat a = 2 ^ k" using nat_and_pred_zero by blast
  have "unat a < 2 ^ 64" using unsigned_less [of a] by simp
  with k have "(2::nat) ^ k < 2 ^ 64" by simp
  then have "k < 64"
    by (simp only: power_strict_increasing_iff one_less_numeral_iff semiring_norm)
  moreover have "a = of_nat (unat a)" by simp
  then have "a = 2 ^ k" by (simp only: k of_nat_power of_nat_numeral)
  ultimately show ?thesis by blast
qed

lemma word_pow2_and_pred:
  fixes a :: "64 word"
  assumes "k < 64"
  shows "(2 ^ k :: 64 word) AND (2 ^ k - 1) = 0"
  by (rule bit_eqI) (auto simp: bit_simps mask_eq_exp_minus_1 [symmetric])

lemma alignment_check:
  "(a = 0 \<or> (a AND (a - 1)) \<noteq> 0) \<longleftrightarrow> \<not> power_of_two a"
proof
  assume "a = 0 \<or> (a AND (a - 1)) \<noteq> 0"
  then show "\<not> power_of_two a"
    by (auto simp: power_of_two_def word_pow2_and_pred)
next
  assume np: "\<not> power_of_two a"
  show "a = 0 \<or> (a AND (a - 1)) \<noteq> 0"
  proof (rule ccontr)
    assume "\<not> (a = 0 \<or> (a AND (a - 1)) \<noteq> 0)"
    then obtain k where "k < 64" and "a = 2 ^ k"
      using word_and_pred_zero [of a] by auto
    then have "power_of_two a"
      unfolding power_of_two_def by (intro bexI [of _ k]) simp_all
    with np show False by simp
  qed
qed

text \<open>
  C9 as the code has it. The whole result of \<^verbatim>\<open>aligned_malloc\<close> is a pointer (and the
  heap it leaves): there is no error code. For an alignment that is zero or not a
  power of two the pointer is null and the heap is as it was. For a power of two, when
  \<^verbatim>\<open>posix_memalign\<close> reports a failure the pointer is again null and the heap as it
  was, and when it reports success the result is the pointer and the heap that
  \<^verbatim>\<open>posix_memalign\<close> produced.
\<close>

theorem aligned_malloc_alignment:
  "(alignment = 0 \<or> \<not> power_of_two alignment \<longrightarrow> aligned_malloc c h sz alignment = (NULL, h))
   \<and> (power_of_two alignment \<and> fst (posix_memalign c h NULL alignment sz) \<noteq> 0 \<longrightarrow>
        aligned_malloc c h sz alignment = (NULL, h))
   \<and> (power_of_two alignment \<and> posix_memalign c h NULL alignment sz = (0, p, h') \<longrightarrow>
        aligned_malloc c h sz alignment = (p, h'))"
proof (intro conjI impI)
  assume "alignment = 0 \<or> \<not> power_of_two alignment"
  then have "alignment = 0 \<or> (alignment AND (alignment - 1)) \<noteq> 0"
    using alignment_check [of alignment] by auto
  then show "aligned_malloc c h sz alignment = (NULL, h)"
    by (auto simp: aligned_malloc_def)
next
  assume a: "power_of_two alignment \<and> fst (posix_memalign c h NULL alignment sz) \<noteq> 0"
  then have v: "\<not> (alignment = 0 \<or> (alignment AND (alignment - 1)) \<noteq> 0)"
    using alignment_check [of alignment] by simp
  obtain rc q h1 where m: "posix_memalign c h NULL alignment sz = (rc, q, h1)"
    by (cases "posix_memalign c h NULL alignment sz")
  with a have "rc \<noteq> 0" by simp
  with m have "h1 = h" by (auto dest: posix_memalign_failure)
  with v m \<open>rc \<noteq> 0\<close> show "aligned_malloc c h sz alignment = (NULL, h)"
    by (simp add: aligned_malloc_def)
next
  assume a: "power_of_two alignment \<and> posix_memalign c h NULL alignment sz = (0, p, h')"
  then have v: "\<not> (alignment = 0 \<or> (alignment AND (alignment - 1)) \<noteq> 0)"
    using alignment_check [of alignment] by simp
  from a show "aligned_malloc c h sz alignment = (p, h')"
    using v by (simp add: aligned_malloc_def)
qed

lemma not_power_of_two_3: "\<not> power_of_two 3"
proof -
  have "(3 :: 64 word) AND (3 - 1) \<noteq> 0" by simp
  then show ?thesis using alignment_check [of 3] by blast
qed

lemma power_of_two_16: "power_of_two 16"
proof -
  have "(16 :: 64 word) AND (16 - 1) = 0" by simp
  then show ?thesis using alignment_check [of 16] by simp
qed

theorem aligned_malloc_alignment_witness:
  "\<not> power_of_two 3 \<and> aligned_malloc (Place 0x2000 []) heap0 64 3 = (NULL, heap0)
   \<and> power_of_two 16 \<and> fst (posix_memalign Refuse heap0 NULL 16 64) \<noteq> 0
   \<and> aligned_malloc Refuse heap0 64 16 = (NULL, heap0)
   \<and> posix_memalign (Place 0x2000 []) heap0 NULL 16 8
       = (0, \<lparr>blk = 0x2000, off = 0\<rparr>, heap0(0x2000 \<mapsto> [0, 0]))
   \<and> aligned_malloc (Place 0x2000 []) heap0 8 16
       = (\<lparr>blk = 0x2000, off = 0\<rparr>, heap0(0x2000 \<mapsto> [0, 0]))"
proof -
  have 1: "fst (posix_memalign Refuse heap0 NULL 16 64) \<noteq> 0"
    by (simp add: posix_memalign_def ENOMEM_def)
  have 2: "posix_memalign (Place 0x2000 []) heap0 NULL 16 8
       = (0, \<lparr>blk = 0x2000, off = 0\<rparr>, heap0(0x2000 \<mapsto> [0, 0]))"
    by (simp add: posix_memalign_def heap0_def fresh_cells_def replicate_numeral')
  show ?thesis
    using aligned_malloc_alignment [of 3 "Place 0x2000 []" heap0 64]
      aligned_malloc_alignment [of 16 Refuse heap0 64]
      aligned_malloc_alignment [of 16 "Place 0x2000 []" heap0 8 "\<lparr>blk = 0x2000, off = 0\<rparr>"
        "heap0(0x2000 \<mapsto> [0, 0])"]
      not_power_of_two_3 power_of_two_16 1 2
    by simp
qed

text \<open>
  An alignment of 3 is answered with the null pointer, which is also the answer to an
  allocation that found no memory: no \<^verbatim>\<open>NEON_ERROR_INVALID_PARAM\<close> is produced.
\<close>

theorem aligned_malloc_bad_alignment_is_null:
  "aligned_malloc (Place 0x2000 []) heap0 64 3 = (NULL, heap0)
   \<and> aligned_malloc Refuse heap0 64 16 = (NULL, heap0)"
  by (simp add: aligned_malloc_def posix_memalign_def ENOMEM_def)

section \<open>Resizing a buffer\<close>

lemma length_copy_cells: "length (copy_cells d od s os k) = length d"
  by (induction k) simp_all

lemma nth_copy_cells:
  "od + k \<le> length d \<Longrightarrow> j < length d \<Longrightarrow>
     copy_cells d od s os k ! j = (if od \<le> j \<and> j < od + k then s ! (os + (j - od)) else d ! j)"
proof (induction k)
  case 0
  then show ?case by auto
next
  case (Suc k)
  then show ?case
    by (auto simp: nth_list_update length_copy_cells)
qed

lemma take_copy_cells:
  assumes "k \<le> length d" and "k \<le> length s"
  shows "take k (copy_cells d 0 s 0 k) = take k s"
  using assms by (intro nth_equalityI) (simp_all add: length_copy_cells nth_copy_cells)

lemma unat_times_sizeof_float:
  fixes n :: size_t
  assumes "unat n < 2 ^ 62"
  shows "unat (n * sizeof_float) div 4 = unat n"
proof -
  have "unat (n * 4) = unat n * 4 mod 2 ^ 64"
    by (simp add: unat_word_ariths)
  also have "\<dots> = unat n * 4" using assms by simp
  finally show ?thesis by (simp add: sizeof_float_def)
qed

lemma length_fresh_cells: "length (fresh_cells stale n) = n"
  by (simp add: fresh_cells_def)

text \<open>
  C2 as the code has it. For a buffer (not null): when \<open>new_capacity \<le> capacity\<close> the
  call returns \<^verbatim>\<open>NEON_SUCCESS\<close> and changes neither the buffer nor the heap. When
  \<open>new_capacity > capacity\<close>, the buffer satisfies the data model's invariant, the byte
  count \<open>new_capacity * sizeof(float)\<close> does not wrap around (\<open>new_capacity < 2 ^ 62\<close>) and
  the allocation succeeds, the call returns \<^verbatim>\<open>NEON_SUCCESS\<close>, the capacity is
  \<open>new_capacity\<close>, the new block has \<open>new_capacity\<close> cells and its first \<open>size\<close> cells are
  the first \<open>size\<close> cells of the old block, bit for bit.
\<close>

theorem resize_noop_or_grow:
  "(new_capacity \<le> capacity b \<longrightarrow>
      aligned_buffer_resize c h (Some b) new_capacity = Some (NEON_SUCCESS, Some b, h))
   \<and> (capacity b < new_capacity \<and> unat new_capacity < 2 ^ 62 \<and> buffer_ok h b
        \<and> neon_malloc c h (new_capacity * sizeof_float) = (p, h1) \<and> p \<noteq> NULL \<longrightarrow>
      (\<exists>h'. aligned_buffer_resize c h (Some b) new_capacity
               = Some (NEON_SUCCESS, Some (b\<lparr>data := p, capacity := new_capacity\<rparr>), h')
          \<and> length (contents h' p) = unat new_capacity
          \<and> take (unat (size' b)) (contents h' p) = take (unat (size' b)) (contents h (data b))))"
proof (intro conjI impI)
  assume "new_capacity \<le> capacity b"
  then show "aligned_buffer_resize c h (Some b) new_capacity = Some (NEON_SUCCESS, Some b, h)"
    by (simp add: aligned_buffer_resize_def)
next
  assume a: "capacity b < new_capacity \<and> unat new_capacity < 2 ^ 62 \<and> buffer_ok h b
        \<and> neon_malloc c h (new_capacity * sizeof_float) = (p, h1) \<and> p \<noteq> NULL"
  let ?n = "unat new_capacity" and ?k = "unat (size' b)"
  let ?b' = "b\<lparr>data := p, capacity := new_capacity\<rparr>"
  from a have grow: "\<not> new_capacity \<le> capacity b" by (simp add: not_le)
  from a have ok: "buffer_ok h b" by simp
  from a have m: "neon_malloc c h (new_capacity * sizeof_float) = (p, h1)" and pn: "p \<noteq> NULL"
    by simp_all
  from a have cells: "unat (new_capacity * sizeof_float) div 4 = ?n"
    by (simp add: unat_times_sizeof_float)
  from m pn obtain a0 stale where
    fresh: "a0 \<noteq> 0" "h a0 = None" and p: "p = \<lparr>blk = a0, off = 0\<rparr>"
    and h1: "h1 = h(a0 \<mapsto> fresh_cells stale ?n)"
    unfolding neon_malloc_def cells [symmetric] by (blast dest: aligned_malloc_nonnull)
  have small: "size' b \<le> capacity b" using ok by (simp add: buffer_ok_def)
  then have kle: "?k \<le> unat (capacity b)" by (simp add: word_le_nat_alt)
  have capn: "unat (capacity b) < ?n" using a by (simp add: word_less_nat_alt)
  show "\<exists>h'. aligned_buffer_resize c h (Some b) new_capacity = Some (NEON_SUCCESS, Some ?b', h')
          \<and> length (contents h' p) = ?n
          \<and> take ?k (contents h' p) = take ?k (contents h (data b))"
  proof (cases "data b = NULL")
    case True
    with ok have "capacity b = 0" by (simp add: buffer_ok_def)
    with small have k0: "?k = 0" by simp
    have "aligned_buffer_resize c h (Some b) new_capacity = Some (NEON_SUCCESS, Some ?b', h1)"
      using grow m pn True by (simp add: aligned_buffer_resize_def)
    moreover have "length (contents h1 p) = ?n"
      by (simp add: contents_def h1 p length_fresh_cells)
    ultimately show ?thesis using k0 by simp
  next
    case False
    with ok obtain cs where
      o0: "off (data b) = 0" and live: "h (blk (data b)) = Some cs"
      and len: "length cs = unat (capacity b)"
      by (auto simp: buffer_ok_def split: option.splits)
    have ne: "blk (data b) \<noteq> a0" using live fresh by auto
    have ksz: "unat (size' b * sizeof_float) div 4 = ?k"
      using kle capn a by (intro unat_times_sizeof_float) simp
    let ?new = "copy_cells (fresh_cells stale ?n) 0 cs 0 ?k"
    let ?h2 = "h1(a0 \<mapsto> ?new)"
    have cp: "memcpy h1 p (data b) (size' b * sizeof_float) = Some ?h2"
      using ne live kle capn len o0
      by (simp add: memcpy_def ksz h1 p length_fresh_cells)
    have fr: "neon_free ?h2 (data b) = Some (?h2(blk (data b) := None))"
      using False ne live o0
      by (simp add: neon_free_def aligned_free_def free_block_def h1)
    have "aligned_buffer_resize c h (Some b) new_capacity
            = Some (NEON_SUCCESS, Some ?b', ?h2(blk (data b) := None))"
      using grow m pn False cp fr by (simp add: aligned_buffer_resize_def)
    moreover have "contents (?h2(blk (data b) := None)) p = ?new"
      using ne by (simp add: contents_def p)
    moreover have "contents h (data b) = cs"
      by (simp add: contents_def live o0)
    moreover have "take ?k ?new = take ?k cs"
      using kle capn len by (intro take_copy_cells) (simp_all add: length_fresh_cells)
    ultimately show ?thesis
      by (simp add: length_copy_cells length_fresh_cells)
  qed
qed

theorem resize_noop_or_grow_witness:
  "aligned_buffer_resize (Place 0x2000 [9, 8, 7]) heap0 (Some buffer0) 3
     = Some (NEON_SUCCESS, Some buffer0, heap0)
   \<and> capacity buffer0 < 8 \<and> unat (8 :: size_t) < 2 ^ 62 \<and> buffer_ok heap0 buffer0
   \<and> aligned_buffer_resize (Place 0x2000 [9, 8, 7]) heap0 (Some buffer0) 8
       = Some (NEON_SUCCESS, Some grown0, heap1)
   \<and> length (contents heap1 (data grown0)) = 8
   \<and> take 2 (contents heap1 (data grown0)) = take 2 (contents heap0 (data buffer0))"
proof -
  have 1: "(3 :: size_t) \<le> capacity buffer0" by (simp add: buffer0_def)
  have 2: "capacity buffer0 < 8 \<and> unat (8 :: size_t) < 2 ^ 62 \<and> buffer_ok heap0 buffer0
     \<and> neon_malloc (Place 0x2000 [9, 8, 7]) heap0 (8 * sizeof_float)
         = (data grown0, heap0(0x2000 \<mapsto> [9, 8, 7, 0, 0, 0, 0, 0]))
     \<and> data grown0 \<noteq> NULL"
    by (simp add: buffer0_def buffer_ok_def heap0_def NULL_def grown0_def neon_malloc_def
        aligned_malloc_def posix_memalign_def NEON_ALIGNMENT_def sizeof_float_def fresh_cells_def
        replicate_numeral')
  have 3: "buffer0\<lparr>data := data grown0, capacity := 8\<rparr> = grown0"
    by (simp add: buffer0_def grown0_def)
  have 4: "unat (size' buffer0) = 2" by (simp add: buffer0_def)
  show ?thesis
    using resize_noop_or_grow [of 3 buffer0 "Place 0x2000 [9, 8, 7]" heap0]
      resize_noop_or_grow [of 8 buffer0 "Place 0x2000 [9, 8, 7]" heap0 "data grown0"
        "heap0(0x2000 \<mapsto> [9, 8, 7, 0, 0, 0, 0, 0])"]
      1 2 3 4 resize_example
    by simp
qed

text \<open>
  With \<open>new_capacity = 2 ^ 62 + 1\<close> the byte count wraps around to 4: the allocation of
  one float succeeds, and copying the two valid elements of \<open>buffer0\<close> into it runs
  past the end of the new block.
\<close>

theorem resize_overflow_counterexample:
  "capacity buffer0 < 0x4000000000000001
   \<and> fst (neon_malloc (Place 0x2000 []) heap0 (0x4000000000000001 * sizeof_float)) \<noteq> NULL
   \<and> aligned_buffer_resize (Place 0x2000 []) heap0 (Some buffer0) 0x4000000000000001 = None"
  by (simp add: aligned_buffer_resize_def neon_malloc_def aligned_malloc_def posix_memalign_def
      NEON_ALIGNMENT_def sizeof_float_def heap0_def buffer0_def NULL_def
      memcpy_def fresh_cells_def replicate_numeral')

section \<open>Bulk fill\<close>

lemma unat_plus_no_wrap:
  fixes i k :: size_t
  assumes "unat i \<le> max_elems" and "unat k \<le> max_elems"
  shows "unat (i + k) = unat i + unat k"
proof -
  have "unat i + unat k < 2 ^ LENGTH(64)" using assms by (simp add: max_elems_def)
  then show ?thesis by (simp only: unat_add_lem)
qed

lemma length_fill_cells: "length (fill_cells cs od v k) = length cs"
  by (induction k) simp_all

lemma nth_fill_cells:
  "j < length cs \<Longrightarrow>
     fill_cells cs od v k ! j = (if od \<le> j \<and> j < od + k then v else cs ! j)"
proof (induction k)
  case 0
  then show ?case by auto
next
  case (Suc k)
  show ?case
  proof (cases "j = od + k")
    case True
    with Suc.prems show ?thesis by (simp add: length_fill_cells)
  next
    case False
    with Suc show ?thesis by auto
  qed
qed

lemma filled_0: "filled h dst v 0 = h"
  by (auto simp: filled_def split: option.splits)

lemma store_filled:
  assumes "h (blk dst) = Some cs" and "off dst + k < length cs" and "off dst + k < max_elems"
    and "blk p = blk dst" and "off p = off dst + k"
  shows "store_f32 (filled h dst v k) p v = Some (filled h dst v (Suc k))"
  using assms by (simp add: store_f32_def filled_def length_fill_cells)

lemma vst1q_filled:
  assumes "h (blk dst) = Some cs" and "off dst + k + 4 \<le> length cs"
    and "off dst + k + 4 \<le> max_elems" and "blk p = blk dst" and "off p = off dst + k"
    and "k' = k + 4"
  shows "vst1q_f32 (filled h dst v k) p (vdupq_n_f32 v) = Some (filled h dst v k')"
proof -
  have 1: "store_f32 (filled h dst v k) p v = Some (filled h dst v (Suc k))"
    using assms store_filled [of h dst cs k p v] by simp
  have 2: "store_f32 (filled h dst v (Suc k)) (ptr_add p 1) v = Some (filled h dst v (Suc (Suc k)))"
    using assms store_filled [of h dst cs "Suc k" "ptr_add p 1" v] by (simp add: ptr_add_def)
  have 3: "store_f32 (filled h dst v (Suc (Suc k))) (ptr_add p 2) v
             = Some (filled h dst v (Suc (Suc (Suc k))))"
    using assms store_filled [of h dst cs "Suc (Suc k)" "ptr_add p 2" v]
    by (simp add: ptr_add_def)
  have 4: "store_f32 (filled h dst v (Suc (Suc (Suc k)))) (ptr_add p 3) v
             = Some (filled h dst v (Suc (Suc (Suc (Suc k)))))"
    using assms store_filled [of h dst cs "Suc (Suc (Suc k))" "ptr_add p 3" v]
    by (simp add: ptr_add_def)
  have e: "k' = Suc (Suc (Suc (Suc k)))" using assms(6) by simp
  show ?thesis unfolding e using 1 2 3 4 by (simp add: vdupq_n_f32_def)
qed

lemma fill_loop1_filled:
  assumes "h (blk dst) = Some cs" and "off dst + unat sz \<le> length cs"
    and "off dst + unat sz \<le> max_elems"
  shows "i \<le> sz \<Longrightarrow> fill_loop1 (filled h dst v (unat i)) dst v sz i = Some (filled h dst v (unat sz))"
proof (induction "unat sz - unat i" arbitrary: i)
  case 0
  then have "i = sz" by (simp add: word_le_nat_alt word_unat_eq_iff)
  then show ?case by (subst fill_loop1.simps) simp
next
  case (Suc n)
  then have lt: "unat i < unat sz" by simp
  then have less: "i < sz" by (simp add: word_less_nat_alt)
  have "unat i \<le> max_elems" using lt assms(3) by simp
  then have step: "unat (i + 1) = Suc (unat i)"
    by (simp add: unat_plus_no_wrap max_elems_def)
  have st: "store_f32 (filled h dst v (unat i)) (ptr_add dst i) v = Some (filled h dst v (Suc (unat i)))"
    using assms lt store_filled [of h dst cs "unat i" "ptr_add dst i" v]
    by (simp add: ptr_add_def)
  have "fill_loop1 (filled h dst v (unat (i + 1))) dst v sz (i + 1) = Some (filled h dst v (unat sz))"
    using Suc.hyps(2) lt step by (intro Suc.hyps(1)) (simp_all add: word_le_nat_alt)
  then show ?case
    using less st step by (subst fill_loop1.simps) simp
qed

lemma fill_loop4_filled:
  assumes "h (blk dst) = Some cs" and "off dst + unat sz \<le> length cs"
    and "off dst + unat sz \<le> max_elems"
  shows "i \<le> sz \<Longrightarrow> \<exists>j. fill_loop4 (filled h dst v (unat i)) dst (vdupq_n_f32 v) sz i
            = Some (filled h dst v (unat j), j) \<and> j \<le> sz"
proof (induction "unat sz - unat i" arbitrary: i rule: less_induct)
  case less
  have le: "unat i \<le> unat sz" using less.prems by (simp add: word_le_nat_alt)
  show ?case
  proof (cases "i + 4 \<le> sz")
    case False
    then show ?thesis using less.prems by (subst fill_loop4.simps) simp
  next
    case True
    have "unat sz < 2 ^ 64" using unsigned_less [of sz] by simp
    have "unat i \<le> max_elems" using le assms(3) by simp
    then have step: "unat (i + 4) = unat i + 4"
      by (simp add: unat_plus_no_wrap max_elems_def)
    have le4: "unat i + 4 \<le> unat sz"
      using True step by (simp add: word_le_nat_alt)
    have st: "vst1q_f32 (filled h dst v (unat i)) (ptr_add dst i) (vdupq_n_f32 v)
               = Some (filled h dst v (unat (i + 4)))"
      unfolding step
      by (rule vst1q_filled [where cs = cs]) (use assms le4 in \<open>simp_all add: ptr_add_def\<close>)
    have "\<exists>j. fill_loop4 (filled h dst v (unat (i + 4))) dst (vdupq_n_f32 v) sz (i + 4)
            = Some (filled h dst v (unat j), j) \<and> j \<le> sz"
      using True le4 step by (intro less.hyps) simp_all
    then show ?thesis
      using True st by (subst fill_loop4.simps) simp
  qed
qed

lemma fill_loop16_filled:
  assumes "h (blk dst) = Some cs" and "off dst + unat sz \<le> length cs"
    and "off dst + unat sz \<le> max_elems"
  shows "i \<le> sz \<Longrightarrow> \<exists>j. fill_loop16 (filled h dst v (unat i)) dst (vdupq_n_f32 v) sz i
            = Some (filled h dst v (unat j), j) \<and> j \<le> sz"
proof (induction "unat sz - unat i" arbitrary: i rule: less_induct)
  case less
  have le: "unat i \<le> unat sz" using less.prems by (simp add: word_le_nat_alt)
  show ?case
  proof (cases "i + 16 \<le> sz")
    case False
    then show ?thesis using less.prems by (subst fill_loop16.simps) simp
  next
    case True
    have "unat i \<le> max_elems" using le assms(3) by simp
    then have step: "unat (i + 16) = unat i + 16"
      by (simp add: unat_plus_no_wrap max_elems_def)
    have le16: "unat i + 16 \<le> unat sz"
      using True step by (simp add: word_le_nat_alt)
    let ?H = "\<lambda>k. filled h dst v (unat i + k)"
    have s1: "vst1q_f32 (?H 0) (ptr_add dst i) (vdupq_n_f32 v) = Some (?H 4)"
      by (rule vst1q_filled [where cs = cs]) (use assms le16 in \<open>simp_all add: ptr_add_def\<close>)
    have s2: "vst1q_f32 (?H 4) (ptr_add (ptr_add dst i) 4) (vdupq_n_f32 v) = Some (?H 8)"
      by (rule vst1q_filled [where cs = cs]) (use assms le16 in \<open>simp_all add: ptr_add_def\<close>)
    have s3: "vst1q_f32 (?H 8) (ptr_add (ptr_add dst i) 8) (vdupq_n_f32 v) = Some (?H 12)"
      by (rule vst1q_filled [where cs = cs]) (use assms le16 in \<open>simp_all add: ptr_add_def\<close>)
    have s4: "vst1q_f32 (?H 12) (ptr_add (ptr_add dst i) 12) (vdupq_n_f32 v) = Some (?H 16)"
      by (rule vst1q_filled [where cs = cs]) (use assms le16 in \<open>simp_all add: ptr_add_def\<close>)
    have "\<exists>j. fill_loop16 (filled h dst v (unat (i + 16))) dst (vdupq_n_f32 v) sz (i + 16)
            = Some (filled h dst v (unat j), j) \<and> j \<le> sz"
      using True le16 step by (intro less.hyps) simp_all
    then show ?thesis
      using True s1 s2 s3 s4 step by (subst fill_loop16.simps) simp
  qed
qed

lemma fill_vector_filled:
  assumes "h (blk dst) = Some cs" and "off dst + unat sz \<le> length cs"
    and "off dst + unat sz \<le> max_elems"
  shows "neon_fill_f32_vector h dst v sz = Some (filled h dst v (unat sz))"
proof -
  obtain j where j: "fill_loop16 (filled h dst v (unat (0 :: size_t))) dst (vdupq_n_f32 v) sz 0
            = Some (filled h dst v (unat j), j)" "j \<le> sz"
    using fill_loop16_filled [of h dst cs sz 0 v] assms by auto
  obtain j' where j': "fill_loop4 (filled h dst v (unat j)) dst (vdupq_n_f32 v) sz j
            = Some (filled h dst v (unat j'), j')" "j' \<le> sz"
    using fill_loop4_filled [of h dst cs sz j v] assms j(2) by auto
  have "fill_loop1 (filled h dst v (unat j')) dst v sz j' = Some (filled h dst v (unat sz))"
    using fill_loop1_filled [of h dst cs sz j' v] assms j'(2) by simp
  with j j' show ?thesis by (simp add: neon_fill_f32_vector_def filled_0)
qed

lemma fill_scalar_filled:
  assumes "h (blk dst) = Some cs" and "off dst + unat sz \<le> length cs"
    and "off dst + unat sz \<le> max_elems"
  shows "neon_fill_f32_scalar h dst v sz = Some (filled h dst v (unat sz))"
  using fill_loop1_filled [of h dst cs sz 0 v] assms by (simp add: neon_fill_f32_scalar_def filled_0)

lemma fill_cells_numeral:
  "fill_cells cs od v (numeral n) = (fill_cells cs od v (pred_numeral n))[od + pred_numeral n := v]"
  by (simp add: numeral_eq_Suc)

lemma load_filled:
  assumes "h (blk dst) = Some cs" and "off dst + n \<le> length cs" and "off dst + n \<le> max_elems"
    and "j < n" and "blk p = blk dst" and "off p = off dst + j"
  shows "load_f32 (filled h dst v n) p = Some v"
  using assms by (simp add: load_f32_def filled_def length_fill_cells nth_fill_cells)

lemma load_filled_frame:
  assumes "h (blk dst) = Some cs"
    and "blk p \<noteq> blk dst \<or> off p < off dst \<or> off dst + n \<le> off p"
  shows "load_f32 (filled h dst v n) p = load_f32 h p"
  using assms by (auto simp: load_f32_def filled_def length_fill_cells nth_fill_cells)

lemma length_filled:
  "map_option length (filled h dst v n a) = map_option length (h a)"
  by (auto simp: filled_def length_fill_cells split: option.splits)

text \<open>
  C5. Let \<open>dst\<close> point into a live object that holds the \<open>sz\<close> floats from \<open>dst\<close>. Then
  \<^verbatim>\<open>neon_fill_f32\<close> returns, and its vector path and its scalar fallback return the
  same heap: the one in which \<open>dst[i]\<close> is \<open>v\<close> for every \<open>i < sz\<close>, every cell that
  is not one of these is what it was (nothing at an index of \<open>sz\<close> or more is
  written), and every object keeps its length.
\<close>

theorem neon_fill_f32_fills:
  assumes "h (blk dst) = Some cs" and "off dst + unat sz \<le> length cs"
    and "off dst + unat sz \<le> max_elems"
  shows "neon_fill_f32 h dst v sz = Some (filled h dst v (unat sz))
     \<and> neon_fill_f32_vector h dst v sz = Some (filled h dst v (unat sz))
     \<and> neon_fill_f32_scalar h dst v sz = Some (filled h dst v (unat sz))
     \<and> (\<forall>i. i < sz \<longrightarrow> load_f32 (filled h dst v (unat sz)) (ptr_add dst i) = Some v)
     \<and> (\<forall>p. blk p \<noteq> blk dst \<or> off p < off dst \<or> off dst + unat sz \<le> off p \<longrightarrow>
            load_f32 (filled h dst v (unat sz)) p = load_f32 h p)
     \<and> (\<forall>a. map_option length (filled h dst v (unat sz) a) = map_option length (h a))"
proof (intro conjI allI impI)
  show vec: "neon_fill_f32_vector h dst v sz = Some (filled h dst v (unat sz))"
    using assms by (rule fill_vector_filled)
  show sc: "neon_fill_f32_scalar h dst v sz = Some (filled h dst v (unat sz))"
    using assms by (rule fill_scalar_filled)
  from vec sc show "neon_fill_f32 h dst v sz = Some (filled h dst v (unat sz))"
    by (simp add: neon_fill_f32_def)
next
  fix i assume "i < sz"
  then have "unat i < unat sz" by (simp add: word_less_nat_alt)
  then show "load_f32 (filled h dst v (unat sz)) (ptr_add dst i) = Some v"
    using assms by (intro load_filled [where cs = cs and j = "unat i"]) (simp_all add: ptr_add_def)
next
  fix p :: pointer assume "blk p \<noteq> blk dst \<or> off p < off dst \<or> off dst + unat sz \<le> off p"
  then show "load_f32 (filled h dst v (unat sz)) p = load_f32 h p"
    using assms(1) by (intro load_filled_frame [where cs = cs])
next
  fix a show "map_option length (filled h dst v (unat sz) a) = map_option length (h a)"
    by (rule length_filled)
qed

theorem neon_fill_f32_fills_witness:
  "heap2 0x4000 = Some block_z \<and> length block_z = 24
   \<and> IS_ALIGNED \<lparr>blk = 0x4000, off = 0\<rparr>
   \<and> neon_fill_f32 heap2 \<lparr>blk = 0x4000, off = 0\<rparr> 7 21 = Some (heap2(0x4000 \<mapsto> sevens_from_0))
   \<and> \<not> IS_ALIGNED \<lparr>blk = 0x4000, off = 1\<rparr>
   \<and> neon_fill_f32 heap2 \<lparr>blk = 0x4000, off = 1\<rparr> 7 21 = Some (heap2(0x4000 \<mapsto> sevens_from_1))"
proof -
  have 1: "heap2 (blk \<lparr>blk = 0x4000, off = 0\<rparr>) = Some block_z"
    "heap2 (blk \<lparr>blk = 0x4000, off = 1\<rparr>) = Some block_z" "length block_z = 24"
    by (simp_all add: heap2_def block_z_def)
  have 2: "filled heap2 \<lparr>blk = 0x4000, off = 0\<rparr> 7 21 = heap2(0x4000 \<mapsto> sevens_from_0)"
    "filled heap2 \<lparr>blk = 0x4000, off = 1\<rparr> 7 21 = heap2(0x4000 \<mapsto> sevens_from_1)"
    by (simp_all add: filled_def heap2_def block_z_def sevens_from_0_def sevens_from_1_def
        fill_cells_numeral)
  have 3: "IS_ALIGNED \<lparr>blk = 0x4000, off = 0\<rparr>" "\<not> IS_ALIGNED \<lparr>blk = 0x4000, off = 1\<rparr>"
    by (simp_all add: IS_ALIGNED_def address_def NEON_ALIGNMENT_def)
  show ?thesis
    using neon_fill_f32_fills [of heap2 "\<lparr>blk = 0x4000, off = 0\<rparr>" block_z 21 7]
      neon_fill_f32_fills [of heap2 "\<lparr>blk = 0x4000, off = 1\<rparr>" block_z 21 7]
      1 2 3
    by (simp add: max_elems_def)
qed

text \<open>The same fill, by running the three loops of the vector path.\<close>

lemma fill_runs:
  "neon_fill_f32_vector heap2 \<lparr>blk = 0x4000, off = 0\<rparr> 7 21 = Some (heap2(0x4000 \<mapsto> sevens_from_0))"
  by (simp add: neon_fill_f32_vector_def fill_loop16.simps fill_loop4.simps fill_loop1.simps
      vdupq_n_f32_def store_f32_def ptr_add_def heap2_def block_z_def sevens_from_0_def
      max_elems_def)

section \<open>Bulk copy\<close>

lemma copied_0: "copied h dst src 0 = h"
  by (auto simp: copied_def split: option.splits)

lemma load_copied:
  assumes "spans_ok h dst src n" and "k \<le> n" and "j < n"
    and "blk q = blk src" and "off q = off src + j"
  shows "load_f32 (copied h dst src k) q = Some (elem h src j)"
proof -
  from assms(1) obtain dcs scs where
    d: "h (blk dst) = Some dcs" and s: "h (blk src) = Some scs"
    and b: "off dst + n \<le> length dcs" "off src + n \<le> length scs"
      "off dst + n \<le> max_elems" "off src + n \<le> max_elems"
    and dj: "blk dst \<noteq> blk src \<or> off dst + n \<le> off src \<or> off src + n \<le> off dst"
    by (auto simp: spans_ok_def split: option.splits)
  show ?thesis
  proof (cases "blk dst = blk src")
    case False
    then show ?thesis
      using d s b assms(3-5) by (simp add: load_f32_def copied_def elem_def)
  next
    case True
    with d s have same: "scs = dcs" by simp
    have "copy_cells dcs (off dst) scs (off src) k ! (off src + j) = dcs ! (off src + j)"
      using True dj b assms(2,3) same by (subst nth_copy_cells) auto
    then show ?thesis
      using True d s b assms(3-5) same
      by (simp add: load_f32_def copied_def elem_def length_copy_cells)
  qed
qed

lemma store_copied:
  assumes "spans_ok h dst src n" and "k < n"
    and "blk p = blk dst" and "off p = off dst + k"
  shows "store_f32 (copied h dst src k) p (elem h src k) = Some (copied h dst src (Suc k))"
  using assms
  by (auto simp: spans_ok_def store_f32_def copied_def elem_def length_copy_cells
      split: option.splits)


lemma vld1q_copied:
  assumes "spans_ok h dst src n" and "k \<le> n" and "j + 4 \<le> n"
    and "blk q = blk src" and "off q = off src + j"
  shows "vld1q_f32 (copied h dst src k) q = Some (src_vec h src j)"
proof -
  have 0: "load_f32 (copied h dst src k) q = Some (elem h src j)"
    by (rule load_copied [where n = n]) (use assms in simp_all)
  have 1: "load_f32 (copied h dst src k) (ptr_add q 1) = Some (elem h src (j + 1))"
    by (rule load_copied [where n = n]) (use assms in \<open>simp_all add: ptr_add_def\<close>)
  have 2: "load_f32 (copied h dst src k) (ptr_add q 2) = Some (elem h src (j + 2))"
    by (rule load_copied [where n = n]) (use assms in \<open>simp_all add: ptr_add_def\<close>)
  have 3: "load_f32 (copied h dst src k) (ptr_add q 3) = Some (elem h src (j + 3))"
    by (rule load_copied [where n = n]) (use assms in \<open>simp_all add: ptr_add_def\<close>)
  from 0 1 2 3 show ?thesis by (simp add: vld1q_f32_def src_vec_def)
qed

lemma vst1q_copied:
  assumes "spans_ok h dst src n" and "k + 4 \<le> n"
    and "blk p = blk dst" and "off p = off dst + k" and "k' = k + 4"
  shows "vst1q_f32 (copied h dst src k) p (src_vec h src k) = Some (copied h dst src k')"
proof -
  have 0: "store_f32 (copied h dst src k) p (elem h src k) = Some (copied h dst src (Suc k))"
    by (rule store_copied [where n = n]) (use assms in simp_all)
  have 1: "store_f32 (copied h dst src (Suc k)) (ptr_add p 1) (elem h src (Suc k))
             = Some (copied h dst src (Suc (Suc k)))"
    by (rule store_copied [where n = n]) (use assms in \<open>simp_all add: ptr_add_def\<close>)
  have 2: "store_f32 (copied h dst src (Suc (Suc k))) (ptr_add p 2) (elem h src (Suc (Suc k)))
             = Some (copied h dst src (Suc (Suc (Suc k))))"
    by (rule store_copied [where n = n]) (use assms in \<open>simp_all add: ptr_add_def\<close>)
  have 3: "store_f32 (copied h dst src (Suc (Suc (Suc k)))) (ptr_add p 3)
             (elem h src (Suc (Suc (Suc k))))
             = Some (copied h dst src (Suc (Suc (Suc (Suc k)))))"
    by (rule store_copied [where n = n]) (use assms in \<open>simp_all add: ptr_add_def\<close>)
  have e: "k' = Suc (Suc (Suc (Suc k)))" using assms(5) by simp
  have v: "src_vec h src k = Vec4 (elem h src k) (elem h src (Suc k)) (elem h src (Suc (Suc k)))
             (elem h src (Suc (Suc (Suc k))))"
    by (simp add: src_vec_def numeral_eq_Suc)
  show ?thesis unfolding e v using 0 1 2 3 by simp
qed

lemma copy_loop1_copied:
  assumes "spans_ok h dst src (unat sz)"
  shows "i \<le> sz \<Longrightarrow>
     copy_loop1 (copied h dst src (unat i)) dst src sz i = Some (copied h dst src (unat sz))"
proof (induction "unat sz - unat i" arbitrary: i)
  case 0
  then have "i = sz" by (simp add: word_le_nat_alt word_unat_eq_iff)
  then show ?case by (subst copy_loop1.simps) simp
next
  case (Suc n)
  then have lt: "unat i < unat sz" by simp
  then have less: "i < sz" by (simp add: word_less_nat_alt)
  have "unat sz \<le> max_elems" using assms by (auto simp: spans_ok_def split: option.splits)
  with lt have "unat i \<le> max_elems" by simp
  then have step: "unat (i + 1) = Suc (unat i)"
    by (simp add: unat_plus_no_wrap max_elems_def)
  have ld: "load_f32 (copied h dst src (unat i)) (ptr_add src i) = Some (elem h src (unat i))"
    by (rule load_copied [where n = "unat sz"]) (use assms lt in \<open>simp_all add: ptr_add_def\<close>)
  have st: "store_f32 (copied h dst src (unat i)) (ptr_add dst i) (elem h src (unat i))
              = Some (copied h dst src (Suc (unat i)))"
    by (rule store_copied [where n = "unat sz"]) (use assms lt in \<open>simp_all add: ptr_add_def\<close>)
  have "copy_loop1 (copied h dst src (unat (i + 1))) dst src sz (i + 1)
          = Some (copied h dst src (unat sz))"
    using Suc.hyps(2) lt step by (intro Suc.hyps(1)) (simp_all add: word_le_nat_alt)
  then show ?case
    using less ld st step by (subst copy_loop1.simps) simp
qed

lemma copy_loop4_copied:
  assumes "spans_ok h dst src (unat sz)"
  shows "i \<le> sz \<Longrightarrow> \<exists>j. copy_loop4 (copied h dst src (unat i)) dst src sz i
            = Some (copied h dst src (unat j), j) \<and> j \<le> sz"
proof (induction "unat sz - unat i" arbitrary: i rule: less_induct)
  case less
  have le: "unat i \<le> unat sz" using less.prems by (simp add: word_le_nat_alt)
  show ?case
  proof (cases "i + 4 \<le> sz")
    case False
    then show ?thesis using less.prems by (subst copy_loop4.simps) simp
  next
    case True
    have "unat sz \<le> max_elems" using assms by (auto simp: spans_ok_def split: option.splits)
    with le have "unat i \<le> max_elems" by simp
    then have step: "unat (i + 4) = unat i + 4"
      by (simp add: unat_plus_no_wrap max_elems_def)
    have le4: "unat i + 4 \<le> unat sz"
      using True step by (simp add: word_le_nat_alt)
    have ld: "vld1q_f32 (copied h dst src (unat i)) (ptr_add src i) = Some (src_vec h src (unat i))"
      by (rule vld1q_copied [where n = "unat sz"])
        (use assms le4 in \<open>simp_all add: ptr_add_def\<close>)
    have st: "vst1q_f32 (copied h dst src (unat i)) (ptr_add dst i) (src_vec h src (unat i))
               = Some (copied h dst src (unat (i + 4)))"
      unfolding step
      by (rule vst1q_copied [where n = "unat sz"])
        (use assms le4 in \<open>simp_all add: ptr_add_def\<close>)
    have "\<exists>j. copy_loop4 (copied h dst src (unat (i + 4))) dst src sz (i + 4)
            = Some (copied h dst src (unat j), j) \<and> j \<le> sz"
      using True le4 step by (intro less.hyps) simp_all
    then show ?thesis
      using True ld st by (subst copy_loop4.simps) simp
  qed
qed

lemma copy_loop16_copied:
  assumes "spans_ok h dst src (unat sz)"
  shows "i \<le> sz \<Longrightarrow> \<exists>j. copy_loop16 (copied h dst src (unat i)) dst src sz i
            = Some (copied h dst src (unat j), j) \<and> j \<le> sz"
proof (induction "unat sz - unat i" arbitrary: i rule: less_induct)
  case less
  have le: "unat i \<le> unat sz" using less.prems by (simp add: word_le_nat_alt)
  show ?case
  proof (cases "i + 16 \<le> sz")
    case False
    then show ?thesis using less.prems by (subst copy_loop16.simps) simp
  next
    case True
    have "unat sz \<le> max_elems" using assms by (auto simp: spans_ok_def split: option.splits)
    with le have "unat i \<le> max_elems" by simp
    then have step: "unat (i + 16) = unat i + 16"
      by (simp add: unat_plus_no_wrap max_elems_def)
    have le16: "unat i + 16 \<le> unat sz"
      using True step by (simp add: word_le_nat_alt)
    let ?H = "\<lambda>k. copied h dst src (unat i + k)"
    let ?V = "\<lambda>k. src_vec h src (unat i + k)"
    have l0: "vld1q_f32 (?H 0) (ptr_add src i) = Some (?V 0)"
      by (rule vld1q_copied [where n = "unat sz"])
        (use assms le16 in \<open>simp_all add: ptr_add_def\<close>)
    have l1: "vld1q_f32 (?H 0) (ptr_add (ptr_add src i) 4) = Some (?V 4)"
      by (rule vld1q_copied [where n = "unat sz"])
        (use assms le16 in \<open>simp_all add: ptr_add_def\<close>)
    have l2: "vld1q_f32 (?H 0) (ptr_add (ptr_add src i) 8) = Some (?V 8)"
      by (rule vld1q_copied [where n = "unat sz"])
        (use assms le16 in \<open>simp_all add: ptr_add_def\<close>)
    have l3: "vld1q_f32 (?H 0) (ptr_add (ptr_add src i) 12) = Some (?V 12)"
      by (rule vld1q_copied [where n = "unat sz"])
        (use assms le16 in \<open>simp_all add: ptr_add_def\<close>)
    have s0: "vst1q_f32 (?H 0) (ptr_add dst i) (?V 0) = Some (?H 4)"
      by (rule vst1q_copied [where n = "unat sz"])
        (use assms le16 in \<open>simp_all add: ptr_add_def\<close>)
    have s1: "vst1q_f32 (?H 4) (ptr_add (ptr_add dst i) 4) (?V 4) = Some (?H 8)"
      by (rule vst1q_copied [where n = "unat sz"])
        (use assms le16 in \<open>simp_all add: ptr_add_def\<close>)
    have s2: "vst1q_f32 (?H 8) (ptr_add (ptr_add dst i) 8) (?V 8) = Some (?H 12)"
      by (rule vst1q_copied [where n = "unat sz"])
        (use assms le16 in \<open>simp_all add: ptr_add_def\<close>)
    have s3: "vst1q_f32 (?H 12) (ptr_add (ptr_add dst i) 12) (?V 12) = Some (?H 16)"
      by (rule vst1q_copied [where n = "unat sz"])
        (use assms le16 in \<open>simp_all add: ptr_add_def\<close>)
    have "\<exists>j. copy_loop16 (copied h dst src (unat (i + 16))) dst src sz (i + 16)
            = Some (copied h dst src (unat j), j) \<and> j \<le> sz"
      using True le16 step by (intro less.hyps) simp_all
    then show ?thesis
      using True l0 l1 l2 l3 s0 s1 s2 s3 step by (subst copy_loop16.simps) simp
  qed
qed

lemma copy_vector_copied:
  assumes "spans_ok h dst src (unat sz)"
  shows "neon_memory_f32_vector h dst src sz = Some (copied h dst src (unat sz))"
proof -
  obtain j where j: "copy_loop16 (copied h dst src (unat (0 :: size_t))) dst src sz 0
            = Some (copied h dst src (unat j), j)" "j \<le> sz"
    using copy_loop16_copied [of h dst src sz 0] assms by auto
  obtain j' where j': "copy_loop4 (copied h dst src (unat j)) dst src sz j
            = Some (copied h dst src (unat j'), j')" "j' \<le> sz"
    using copy_loop4_copied [of h dst src sz j] assms j(2) by auto
  have "copy_loop1 (copied h dst src (unat j')) dst src sz j' = Some (copied h dst src (unat sz))"
    using copy_loop1_copied [of h dst src sz j'] assms j'(2) by simp
  with j j' show ?thesis by (simp add: neon_memory_f32_vector_def copied_0)
qed

lemma memcpy_copied:
  assumes "spans_ok h dst src (unat sz)"
  shows "memcpy h dst src (sz * sizeof_float) = Some (copied h dst src (unat sz))"
proof -
  have "unat sz \<le> max_elems" using assms by (auto simp: spans_ok_def split: option.splits)
  then have "unat (sz * sizeof_float) div 4 = unat sz"
    by (intro unat_times_sizeof_float) (simp add: max_elems_def)
  then show ?thesis
    using assms by (auto simp: memcpy_def spans_ok_def copied_def split: option.splits)
qed

lemma load_dst_copied:
  assumes "spans_ok h dst src n" and "j < n" and "blk p = blk dst" and "off p = off dst + j"
  shows "load_f32 (copied h dst src n) p = Some (elem h src j)"
  using assms
  by (auto simp: spans_ok_def load_f32_def copied_def elem_def length_copy_cells nth_copy_cells
      split: option.splits)

text \<open>
  C4. For valid, non-overlapping spans \<open>dst\<close> and \<open>src\<close> of \<open>sz\<close> floats, of any length
  and alignment, \<^verbatim>\<open>neon_memory_f32\<close> returns, and its vector path (chunks of 16, of 4
  and of 1) and its fallback \<^verbatim>\<open>memcpy\<close> return the same heap: the one in which, for
  every \<open>i < sz\<close>, \<open>dst[i]\<close> is what \<open>src[i]\<close> was, and \<open>src[i]\<close> still is that.
\<close>

theorem neon_memory_f32_copies:
  assumes "spans_ok h dst src (unat sz)"
  shows "neon_memory_f32 h dst src sz = Some (copied h dst src (unat sz))
     \<and> neon_memory_f32_vector h dst src sz = Some (copied h dst src (unat sz))
     \<and> memcpy h dst src (sz * sizeof_float) = Some (copied h dst src (unat sz))
     \<and> (\<forall>i. i < sz \<longrightarrow> load_f32 (copied h dst src (unat sz)) (ptr_add dst i) = Some (elem h src (unat i))
            \<and> load_f32 (copied h dst src (unat sz)) (ptr_add src i) = Some (elem h src (unat i))
            \<and> load_f32 h (ptr_add src i) = Some (elem h src (unat i)))"
proof (intro conjI allI impI)
  show vec: "neon_memory_f32_vector h dst src sz = Some (copied h dst src (unat sz))"
    using assms by (rule copy_vector_copied)
  show mc: "memcpy h dst src (sz * sizeof_float) = Some (copied h dst src (unat sz))"
    using assms by (rule memcpy_copied)
  from vec mc show "neon_memory_f32 h dst src sz = Some (copied h dst src (unat sz))"
    by (simp add: neon_memory_f32_def)
next
  fix i assume "i < sz"
  then have lt: "unat i < unat sz" by (simp add: word_less_nat_alt)
  show "load_f32 (copied h dst src (unat sz)) (ptr_add dst i) = Some (elem h src (unat i))"
    by (rule load_dst_copied [where n = "unat sz"]) (use assms lt in \<open>simp_all add: ptr_add_def\<close>)
  show "load_f32 (copied h dst src (unat sz)) (ptr_add src i) = Some (elem h src (unat i))"
    by (rule load_copied [where n = "unat sz"]) (use assms lt in \<open>simp_all add: ptr_add_def\<close>)
  have "load_f32 (copied h dst src 0) (ptr_add src i) = Some (elem h src (unat i))"
    by (rule load_copied [where n = "unat sz"]) (use assms lt in \<open>simp_all add: ptr_add_def\<close>)
  then show "load_f32 h (ptr_add src i) = Some (elem h src (unat i))"
    by (simp add: copied_0)
qed

theorem neon_memory_f32_copies_witness:
  "spans_ok heap2 \<lparr>blk = 0x4000, off = 0\<rparr> \<lparr>blk = 0x3000, off = 0\<rparr> 21
   \<and> IS_ALIGNED \<lparr>blk = 0x4000, off = 0\<rparr> \<and> IS_ALIGNED \<lparr>blk = 0x3000, off = 0\<rparr>
   \<and> neon_memory_f32 heap2 \<lparr>blk = 0x4000, off = 0\<rparr> \<lparr>blk = 0x3000, off = 0\<rparr> 21
       = Some (heap2(0x4000 \<mapsto> a_copied))
   \<and> spans_ok heap2 \<lparr>blk = 0x3000, off = 13\<rparr> \<lparr>blk = 0x3000, off = 1\<rparr> 5
   \<and> \<not> IS_ALIGNED \<lparr>blk = 0x3000, off = 13\<rparr>
   \<and> neon_memory_f32 heap2 \<lparr>blk = 0x3000, off = 13\<rparr> \<lparr>blk = 0x3000, off = 1\<rparr> 5
       = Some (heap2(0x3000 \<mapsto> a_shifted))"
proof -
  have 1: "spans_ok heap2 \<lparr>blk = 0x4000, off = 0\<rparr> \<lparr>blk = 0x3000, off = 0\<rparr> (unat (21 :: size_t))"
    "spans_ok heap2 \<lparr>blk = 0x3000, off = 13\<rparr> \<lparr>blk = 0x3000, off = 1\<rparr> (unat (5 :: size_t))"
    by (simp_all add: spans_ok_def heap2_def block_a_def block_z_def max_elems_def)
  have 2: "copied heap2 \<lparr>blk = 0x4000, off = 0\<rparr> \<lparr>blk = 0x3000, off = 0\<rparr> 21
      = heap2(0x4000 \<mapsto> a_copied)"
    "copied heap2 \<lparr>blk = 0x3000, off = 13\<rparr> \<lparr>blk = 0x3000, off = 1\<rparr> 5
      = heap2(0x3000 \<mapsto> a_shifted)"
    by (simp_all add: copied_def heap2_def block_a_def block_z_def a_copied_def a_shifted_def
        copy_cells_numeral)
  have 3: "IS_ALIGNED \<lparr>blk = 0x4000, off = 0\<rparr>" "IS_ALIGNED \<lparr>blk = 0x3000, off = 0\<rparr>"
    "\<not> IS_ALIGNED \<lparr>blk = 0x3000, off = 13\<rparr>"
    by (simp_all add: IS_ALIGNED_def address_def NEON_ALIGNMENT_def)
  show ?thesis
    using neon_memory_f32_copies [OF 1(1)] neon_memory_f32_copies [OF 1(2)] 1 2 3
    by simp
qed

text \<open>The same copy, by running the three loops of the vector path.\<close>

lemma copy_runs:
  "neon_memory_f32_vector heap2 \<lparr>blk = 0x4000, off = 0\<rparr> \<lparr>blk = 0x3000, off = 0\<rparr> 21
       = Some (heap2(0x4000 \<mapsto> a_copied))"
  by (simp add: neon_memory_f32_vector_def copy_loop16.simps copy_loop4.simps copy_loop1.simps
      vld1q_f32_def load_f32_def store_f32_def ptr_add_def heap2_def block_a_def block_z_def
      a_copied_def max_elems_def)

section \<open>Evaluating binary32 arithmetic\<close>

lemma bitlen_0 [simp]: "bitlen 0 = 0"
  by (simp add: bitlen.simps)

lemma bitlen_Suc_0 [simp]: "bitlen (Suc 0) = 1"
  by (simp add: bitlen.simps [of "Suc 0"])

lemma bitlen_Bit0 [simp]: "bitlen (numeral (Num.Bit0 n)) = Suc (bitlen (numeral n))"
  by (subst bitlen.simps) simp

lemma bitlen_Bit1 [simp]: "bitlen (numeral (Num.Bit1 n)) = Suc (bitlen (numeral n))"
  by (subst bitlen.simps) simp

lemmas f32_defs = f32_sign_def f32_exp_def f32_frac_def is_nan_def is_snan_def is_inf_def
  is_finite_def is_zero_def mant_def expo_def dy_def rne_shift_def round_mag_def f32_pack_def
  f32_zero_def f32_infinity_def f32_default_nan_def quiet_def process_nans_def process_nans3_def
  f32_lt_def fadd_def fmul_def fmuladd_def fmax_def fmin_def fcmgt_def f32_of_int_def

lemma f32_of_int_bits:
  "f32_of_int 0 = 0x00000000" "f32_of_int 1 = 0x3F800000" "f32_of_int 2 = 0x40000000"
  "f32_of_int 3 = 0x40400000" "f32_of_int 4 = 0x40800000" "f32_of_int 5 = 0x40A00000"
  "f32_of_int 6 = 0x40C00000" "f32_of_int 7 = 0x40E00000" "f32_of_int 8 = 0x41000000"
  "f32_of_int 10 = 0x41200000" "f32_of_int 70 = 0x428C0000"
  "f32_of_int (- 1) = 0xBF800000" "f32_of_int (- 2) = 0xC0000000"
  by (simp_all add: f32_defs)

text \<open>
  The literals of the source: each bit pattern is the float nearest to the decimal
  (within half a unit in the last place).
\<close>

lemma literal_values:
  "f32_val f32_88 = 88" "f32_val f32_minus_88 = - 88" "f32_val f32_1 = 1" "f32_val f32_0_5 = 1 / 2"
  "\<bar>f32_val f32_0_16666667 - 16666667 / 10 ^ 8\<bar> < 2 powi (- 27)"
  "\<bar>f32_val f32_0_04166667 - 4166667 / 10 ^ 8\<bar> < 2 powi (- 29)"
  by (simp_all add: f32_88_def f32_minus_88_def f32_1_def f32_0_5_def f32_0_16666667_def
      f32_0_04166667_def f32_val_def f32_exp_def f32_frac_def f32_sign_def mant_def expo_def)

text \<open>
  C6. \<^verbatim>\<open>neon_dot_f32x4\<close> of \<open>[1, 2, 3, 4]\<close> and \<open>[5, 6, 7, 8]\<close> is 70,
  \<^verbatim>\<open>neon_sum_f32x4\<close> of \<open>[1, 2, 3, 4]\<close> is 10, \<^verbatim>\<open>neon_max_f32x4\<close> of \<open>[1, 5, 3, 2]\<close> is 5
  and \<^verbatim>\<open>neon_min_f32x4\<close> of \<open>[1, 5, 3, 2]\<close> is 1, as floats.
\<close>

theorem reductions_reference_values:
  "neon_dot_f32x4 (Vec4 (f32_of_int 1) (f32_of_int 2) (f32_of_int 3) (f32_of_int 4))
       (Vec4 (f32_of_int 5) (f32_of_int 6) (f32_of_int 7) (f32_of_int 8)) = f32_of_int 70
   \<and> neon_sum_f32x4 (Vec4 (f32_of_int 1) (f32_of_int 2) (f32_of_int 3) (f32_of_int 4))
       = f32_of_int 10
   \<and> neon_max_f32x4 (Vec4 (f32_of_int 1) (f32_of_int 5) (f32_of_int 3) (f32_of_int 2))
       = f32_of_int 5
   \<and> neon_min_f32x4 (Vec4 (f32_of_int 1) (f32_of_int 5) (f32_of_int 3) (f32_of_int 2))
       = f32_of_int 1"
  by (simp add: neon_dot_f32x4_def neon_sum_f32x4_def neon_max_f32x4_def neon_min_f32x4_def
      vmulq_f32_def f32_defs)

section \<open>Rounding stays in range\<close>

lemma f32_frac_less: "f32_frac w < 2 ^ 23"
  by (simp add: f32_frac_def)

lemma f32_exp_less: "f32_exp w < 256"
  by (simp add: f32_exp_def)

lemma unat_f32_pack:
  assumes "b < 2 ^ 31"
  shows "unat (f32_pack s b) = (if s then 2 ^ 31 else 0) + b"
proof -
  define N :: nat where "N = (if s then 2 ^ 31 else 0) + b"
  have "N < 2 ^ 32" using assms by (simp add: N_def)
  then have "unat (of_nat N :: 32 word) = N" by (simp add: unat_of_nat)
  then show ?thesis by (simp only: f32_pack_def N_def)
qed

lemma f32_pack_fields:
  assumes "b < 2 ^ 31"
  shows "f32_sign (f32_pack s b) = s"
    and "f32_exp (f32_pack s b) = b div 2 ^ 23"
    and "f32_frac (f32_pack s b) = b mod 2 ^ 23"
proof -
  have u: "unat (f32_pack s b) = (if s then 2 ^ 31 else 0) + b"
    using unat_f32_pack [OF assms, of s] by simp
  show "f32_sign (f32_pack s b) = s"
    using assms by (simp add: f32_sign_def u)
  have d: "b div 2 ^ 23 < 256" using assms by (simp add: less_mult_imp_div_less)
  have "(8388608 * 256 + b) div 8388608 = 256 + b div 8388608"
    by (rule div_mult_self4) simp
  then have "(2 ^ 31 + b) div 2 ^ 23 = 256 + b div 2 ^ 23" by simp
  then show "f32_exp (f32_pack s b) = b div 2 ^ 23"
    using d unfolding f32_exp_def u by (cases s) simp_all
  have "(b + 256 * 8388608) mod 8388608 = b mod 8388608"
    by (rule mod_mult_self1)
  then have "(2 ^ 31 + b) mod 2 ^ 23 = b mod 2 ^ 23" by (simp add: add.commute)
  then show "f32_frac (f32_pack s b) = b mod 2 ^ 23"
    unfolding f32_frac_def u by (cases s) simp_all
qed

lemma bitlen_pos: "0 < n \<Longrightarrow> 0 < bitlen n"
  by (subst bitlen.simps) simp

lemma bitlen_bounds: "0 < n \<Longrightarrow> 2 ^ (bitlen n - 1) \<le> n \<and> n < 2 ^ bitlen n"
proof (induction n rule: bitlen.induct)
  case (1 n)
  then have n0: "n \<noteq> 0" by simp
  then have bl: "bitlen n = Suc (bitlen (n div 2))" by (subst bitlen.simps) simp
  show ?case
  proof (cases "n div 2 = 0")
    case True
    with n0 have "n = 1" by (simp add: div_eq_0_iff)
    then show ?thesis by (simp add: bl)
  next
    case False
    then have pos: "0 < n div 2" by simp
    with "1.IH" n0 have ih: "2 ^ (bitlen (n div 2) - 1) \<le> n div 2" "n div 2 < 2 ^ bitlen (n div 2)"
      by simp_all
    have "2 ^ bitlen (n div 2) = (2 :: nat) * 2 ^ (bitlen (n div 2) - 1)"
      using bitlen_pos [OF pos] by (cases "bitlen (n div 2)") simp_all
    then have "(2 :: nat) ^ bitlen (n div 2) \<le> n" using ih(1) by simp
    moreover have "n < 2 * 2 ^ bitlen (n div 2)" using ih(2) by simp
    ultimately show ?thesis by (simp add: bl)
  qed
qed

lemma rne_shift_le: "rne_shift m n \<le> m div 2 ^ n + 1"
  by (simp add: rne_shift_def Let_def)

lemma round_mag_bound:
  assumes "real m * 2 powi e < 2 ^ k" and "k \<le> 127"
  shows "round_mag m e \<le> (k + 127) * 2 ^ 23"
proof (cases "m = 0")
  case True
  then show ?thesis by (simp add: round_mag_def)
next
  case False
  then have m0: "0 < m" by simp
  define bl where "bl = bitlen m"
  define e' where "e' = max (e + int bl - 24) (- 149)"
  define m' where "m' = (if e' \<le> e then m * 2 ^ nat (e - e') else rne_shift m (nat (e' - e)))"
  define b where "b = nat (e' + 149) * 2 ^ 23 + m'"
  have bl1: "0 < bl" and lo: "2 ^ (bl - 1) \<le> m" and hi: "m < 2 ^ bl"
    using bitlen_pos [OF m0] bitlen_bounds [OF m0] by (simp_all add: bl_def)
  have eq: "int bl - 1 = int (bl - 1)" using bl1 by simp
  have "(2 :: real) powi (int (bl - 1) + e) = 2 powi (int (bl - 1)) * 2 powi e"
    by (rule power_int_add) simp
  then have "(2 :: real) powi (int bl - 1 + e) = 2 ^ (bl - 1) * 2 powi e"
    unfolding eq by (simp only: power_int_of_nat)
  also have "\<dots> \<le> real m * 2 powi e"
  proof (rule mult_right_mono)
    have "real (2 ^ (bl - 1)) \<le> real m" using lo by (rule of_nat_mono)
    then show "(2 :: real) ^ (bl - 1) \<le> real m" by simp
    show "0 \<le> (2 :: real) powi e" by simp
  qed
  also have "\<dots> < 2 powi (int k)" using assms(1) by simp
  finally have "int bl - 1 + e < int k"
    by (rule power_int_le_imp_less_exp [rotated]) simp_all
  then have ek: "e + int bl \<le> int k" by simp
  have e'k: "e' + 24 \<le> int k" using ek by (simp add: e'_def)
  have e'lo: "- 149 \<le> e'" "e + int bl - 24 \<le> e'" by (simp_all add: e'_def)
  have m'le: "m' \<le> 2 ^ 24"
  proof (cases "e' \<le> e")
    case True
    then have "int bl + (e - e') \<le> 24" using e'lo by simp
    then have "bl + nat (e - e') \<le> 24" using True by linarith
    have "m * 2 ^ nat (e - e') < 2 ^ bl * 2 ^ nat (e - e')"
      using hi by simp
    also have "\<dots> = 2 ^ (bl + nat (e - e'))" by (simp add: power_add)
    also have "\<dots> \<le> 2 ^ 24"
      using \<open>bl + nat (e - e') \<le> 24\<close> by (intro power_increasing) simp_all
    finally show ?thesis using True by (simp add: m'_def)
  next
    case False
    define n where "n = nat (e' - e)"
    have "int bl \<le> int n + 24" using e'lo False by (simp add: n_def)
    then have "bl \<le> n + 24" by linarith
    then have "(2 :: nat) ^ bl \<le> 2 ^ (n + 24)" by (intro power_increasing) simp_all
    with hi have "m < 2 ^ n * 2 ^ 24" by (simp add: power_add)
    then have "m div 2 ^ n < 2 ^ 24"
      by (simp add: less_mult_imp_div_less mult.commute)
    then show ?thesis
      using False rne_shift_le [of m n] by (simp add: m'_def n_def)
  qed
  have "e' + 149 + 2 \<le> int k + 127" using e'k by simp
  then have "nat (e' + 149) + 2 \<le> k + 127" using e'lo by linarith
  then have "(nat (e' + 149) + 2) * 2 ^ 23 \<le> (k + 127) * (2 :: nat) ^ 23"
    by (intro mult_right_mono) simp_all
  moreover have "b \<le> (nat (e' + 149) + 2) * 2 ^ 23"
    using m'le by (simp add: b_def)
  ultimately have bk: "b \<le> (k + 127) * 2 ^ 23" by simp
  also have "\<dots> \<le> 254 * 2 ^ 23" using assms(2) by simp
  finally have nov: "\<not> 255 * 2 ^ 23 \<le> b" by simp
  have "round_mag m e = (if 255 * 2 ^ 23 \<le> b then 255 * 2 ^ 23 else b)"
    using False by (simp only: round_mag_def Let_def b_def m'_def e'_def bl_def if_False)
  with nov have "round_mag m e = b" by (simp only: if_False)
  with bk show ?thesis by simp
qed


lemma abs_f32_val: "\<bar>f32_val w\<bar> = real (mant w) * 2 powi expo w"
  by (simp add: f32_val_def abs_mult)

lemma pack_bound:
  assumes "b \<le> (k + 127) * 2 ^ 23" and "k \<le> 127"
  shows "is_finite (f32_pack s b) \<and> \<bar>f32_val (f32_pack s b)\<bar> \<le> 2 ^ k"
proof -
  define E where "E = b div 2 ^ 23"
  define F where "F = b mod 2 ^ 23"
  have "(k + 127) * 2 ^ 23 \<le> 254 * (2 :: nat) ^ 23" using assms(2) by simp
  with assms(1) have b31: "b < 2 ^ 31" by simp
  have fields: "f32_exp (f32_pack s b) = E" "f32_frac (f32_pack s b) = F"
    using f32_pack_fields [OF b31] by (simp_all add: E_def F_def)
  have bEF: "b = E * 2 ^ 23 + F" by (simp add: E_def F_def)
  have Flt: "F < 2 ^ 23" by (simp add: F_def)
  have "b div 2 ^ 23 \<le> ((k + 127) * 2 ^ 23) div 2 ^ 23" using assms(1) by (rule div_le_mono)
  then have Ele: "E \<le> k + 127" by (simp add: E_def)
  then have fin: "is_finite (f32_pack s b)" using assms(2) by (simp add: is_finite_def fields)
  have "\<bar>f32_val (f32_pack s b)\<bar> \<le> 2 ^ k"
  proof (cases "E = 0")
    case True
    have "real F * 2 powi (- 149) \<le> 2 ^ 23 * 2 powi (- 149)"
    proof (rule mult_right_mono)
      have "real F \<le> real (2 ^ 23)" using Flt by (intro of_nat_mono) simp
      then show "real F \<le> 2 ^ 23" by simp
      show "0 \<le> (2 :: real) powi (- 149)" by simp
    qed
    also have "\<dots> \<le> 1" by (simp add: power_int_minus field_simps)
    also have "\<dots> \<le> (2 :: real) ^ k" by simp
    finally show ?thesis using True by (simp add: abs_f32_val mant_def expo_def fields)
  next
    case False
    define d where "d = k + 127 - E"
    have dk: "int (23 + d) + (int E - 150) = int k" using Ele by (simp add: d_def)
    have "2 ^ 23 + F \<le> 2 ^ (23 + d)"
    proof (cases "d = 0")
      case True
      then have "E = k + 127" using Ele by (simp add: d_def)
      with assms(1) bEF have "F = 0" by simp
      with True show ?thesis by simp
    next
      case False
      then have "(2 :: nat) ^ 1 \<le> 2 ^ d" by (intro power_increasing) simp_all
      then have "2 * (2 :: nat) ^ 23 \<le> 2 ^ d * 2 ^ 23" by simp
      with Flt show ?thesis by (simp add: power_add)
    qed
    then have "real (2 ^ 23 + F) \<le> real (2 ^ (23 + d))" by (rule of_nat_mono)
    then have "real (2 ^ 23 + F) \<le> 2 powi (int (23 + d))" by (simp only: power_int_of_nat of_nat_power of_nat_numeral)
    then have "real (2 ^ 23 + F) * 2 powi (int E - 150) \<le> 2 powi (int (23 + d)) * 2 powi (int E - 150)"
      by (rule mult_right_mono) simp
    also have "\<dots> = 2 powi (int (23 + d) + (int E - 150))"
      by (rule power_int_add [symmetric]) simp
    also have "\<dots> = 2 ^ k" unfolding dk by (simp only: power_int_of_nat)
    finally show ?thesis using False by (simp add: abs_f32_val mant_def expo_def fields)
  qed
  with fin show ?thesis by simp
qed

lemma round_bound:
  assumes "\<bar>dyv (m, e)\<bar> < 2 ^ k" and "k \<le> 127"
  shows "is_finite (f32_round (m, e)) \<and> \<bar>f32_val (f32_round (m, e))\<bar> \<le> 2 ^ k"
proof -
  have "real (nat \<bar>m\<bar>) * 2 powi e = \<bar>dyv (m, e)\<bar>" by (simp add: abs_mult)
  with assms(1) have "real (nat \<bar>m\<bar>) * 2 powi e < 2 ^ k" by simp
  then have "round_mag (nat \<bar>m\<bar>) e \<le> (k + 127) * 2 ^ 23"
    using assms(2) by (rule round_mag_bound)
  then show ?thesis using assms(2) by (simp only: f32_round.simps pack_bound)
qed

lemma dyv_dy: "dyv (dy w) = f32_val w"
  by (simp add: dy_def f32_val_def)

lemma dyv_mul: "dyv (dy_mul x y) = dyv x * dyv y"
proof (cases x, cases y)
  fix m1 e1 m2 e2 assume "x = (m1, e1)" "y = (m2, e2)"
  moreover have "(2 :: real) powi (e1 + e2) = 2 powi e1 * 2 powi e2"
    by (rule power_int_add) simp
  ultimately show ?thesis by simp
qed

lemma scale_powi:
  assumes "e \<le> e1"
  shows "real_of_int (m * 2 ^ nat (e1 - e)) * 2 powi e = real_of_int m * 2 powi e1"
proof -
  have "(2 :: real) powi (int (nat (e1 - e)) + e) = 2 powi (int (nat (e1 - e))) * 2 powi e"
    by (rule power_int_add) simp
  moreover have "int (nat (e1 - e)) + e = e1" using assms by simp
  ultimately have "(2 :: real) ^ nat (e1 - e) * 2 powi e = 2 powi e1"
    by (simp only: power_int_of_nat)
  then show ?thesis by (simp add: mult.assoc)
qed

lemma dyv_add: "dyv (dy_add x y) = dyv x + dyv y"
proof (cases x, cases y)
  fix m1 e1 m2 e2 assume xy: "x = (m1, e1)" "y = (m2, e2)"
  have "dyv (dy_add x y) = real_of_int (m1 * 2 ^ nat (e1 - min e1 e2)) * 2 powi (min e1 e2)
      + real_of_int (m2 * 2 ^ nat (e2 - min e1 e2)) * 2 powi (min e1 e2)"
    unfolding xy dy_add.simps dyv.simps by (simp only: of_int_add distrib_right)
  then show ?thesis by (simp only: scale_powi min.cobounded1 min.cobounded2 xy dyv.simps)
qed

lemma dy_less_iff: "dy_less x y \<longleftrightarrow> dyv x < dyv y"
proof (cases x, cases y)
  fix m1 e1 m2 e2 assume xy: "x = (m1, e1)" "y = (m2, e2)"
  let ?e = "min e1 e2"
  have "dyv x < dyv y \<longleftrightarrow>
      real_of_int (m1 * 2 ^ nat (e1 - ?e)) * 2 powi ?e < real_of_int (m2 * 2 ^ nat (e2 - ?e)) * 2 powi ?e"
    by (simp only: scale_powi min.cobounded1 min.cobounded2 xy dyv.simps)
  also have "\<dots> \<longleftrightarrow> real_of_int (m1 * 2 ^ nat (e1 - ?e)) < real_of_int (m2 * 2 ^ nat (e2 - ?e))"
    by (rule mult_less_cancel_right_pos) simp
  also have "\<dots> \<longleftrightarrow> m1 * 2 ^ nat (e1 - ?e) < m2 * 2 ^ nat (e2 - ?e)"
    by (rule of_int_less_iff)
  finally show ?thesis by (simp only: xy dy_less.simps)
qed

section \<open>The approximate exponential\<close>

lemma finite_not_special:
  "is_finite a \<Longrightarrow> \<not> is_nan a \<and> \<not> is_snan a \<and> \<not> is_inf a"
  by (simp add: is_finite_def is_nan_def is_snan_def is_inf_def)

lemma not_nan_cases: "\<not> is_nan x \<Longrightarrow> is_inf x \<or> is_finite x"
  using f32_exp_less [of x] by (auto simp: is_nan_def is_inf_def is_finite_def)

lemma zero_bound: "is_finite (f32_zero s) \<and> \<bar>f32_val (f32_zero s)\<bar> \<le> 2 ^ k"
proof -
  have p: "is_finite (f32_pack s 0) \<and> \<bar>f32_val (f32_pack s 0)\<bar> \<le> 2 ^ 0"
    by (rule pack_bound) simp_all
  then have "\<bar>f32_val (f32_pack s 0)\<bar> \<le> 1" by simp
  also have "(1 :: real) \<le> 2 ^ k" by simp
  finally show ?thesis using p by (simp add: f32_zero_def)
qed

lemmas zero_finite = zero_bound [THEN conjunct1]

lemmas zero_small = zero_bound [THEN conjunct2]

lemma fmul_bound:
  assumes "is_finite a" and "is_finite b"
    and "\<bar>f32_val a\<bar> \<le> A" and "\<bar>f32_val b\<bar> \<le> B" and "A * B < 2 ^ k" and "k \<le> 127"
  shows "is_finite (fmul a b) \<and> \<bar>f32_val (fmul a b)\<bar> \<le> 2 ^ k"
proof -
  note sa = finite_not_special [OF assms(1)] and sb = finite_not_special [OF assms(2)]
  have eq: "fmul a b = (if is_zero a \<or> is_zero b then f32_zero (f32_sign a \<noteq> f32_sign b)
      else f32_round (dy_mul (dy a) (dy b)))"
    using sa sb by (simp add: fmul_def process_nans_def)
  obtain m e where me: "dy_mul (dy a) (dy b) = (m, e)" by (cases "dy_mul (dy a) (dy b)")
  have "\<bar>dyv (m, e)\<bar> = \<bar>f32_val a\<bar> * \<bar>f32_val b\<bar>"
    unfolding me [symmetric] by (simp only: dyv_mul dyv_dy abs_mult)
  also have "\<dots> \<le> A * B" using assms(3,4) by (intro mult_mono) simp_all
  finally have "\<bar>dyv (m, e)\<bar> < 2 ^ k" using assms(5) by simp
  then have "is_finite (f32_round (m, e)) \<and> \<bar>f32_val (f32_round (m, e))\<bar> \<le> 2 ^ k"
    using assms(6) by (rule round_bound)
  then show ?thesis by (simp add: eq me zero_finite zero_small)
qed

lemma fmuladd_bound:
  assumes "is_finite a" and "is_finite b" and "is_finite c"
    and "\<bar>f32_val a\<bar> \<le> A" and "\<bar>f32_val b\<bar> \<le> B" and "\<bar>f32_val c\<bar> \<le> C"
    and "A + B * C < 2 ^ k" and "k \<le> 127"
  shows "is_finite (fmuladd a b c) \<and> \<bar>f32_val (fmuladd a b c)\<bar> \<le> 2 ^ k"
proof -
  note sa = finite_not_special [OF assms(1)] and sb = finite_not_special [OF assms(2)]
    and sc = finite_not_special [OF assms(3)]
  let ?r = "dy_add (dy a) (dy_mul (dy b) (dy c))"
  have eq: "fmuladd a b c =
      (if is_zero a \<and> (is_zero b \<or> is_zero c) \<and> f32_sign a = (f32_sign b \<noteq> f32_sign c)
       then f32_zero (f32_sign a)
       else if fst ?r = 0 then f32_zero False else f32_round ?r)"
    using sa sb sc by (simp add: fmuladd_def process_nans3_def Let_def)
  obtain m e where me: "?r = (m, e)" by (cases ?r)
  have "\<bar>dyv (m, e)\<bar> = \<bar>f32_val a + f32_val b * f32_val c\<bar>"
    unfolding me [symmetric] by (simp only: dyv_add dyv_mul dyv_dy)
  also have "\<dots> \<le> \<bar>f32_val a\<bar> + \<bar>f32_val b\<bar> * \<bar>f32_val c\<bar>"
    using abs_triangle_ineq [of "f32_val a" "f32_val b * f32_val c"] by (simp add: abs_mult)
  also have "\<dots> \<le> A + B * C"
    using assms(4-6) by (intro add_mono mult_mono) simp_all
  finally have "\<bar>dyv (m, e)\<bar> < 2 ^ k" using assms(7) by simp
  then have "is_finite (f32_round (m, e)) \<and> \<bar>f32_val (f32_round (m, e))\<bar> \<le> 2 ^ k"
    using assms(8) by (rule round_bound)
  then show ?thesis by (simp add: eq me zero_finite zero_small)
qed

lemma f32_lt_finite:
  "is_finite a \<Longrightarrow> is_finite b \<Longrightarrow> f32_lt a b \<longleftrightarrow> f32_val a < f32_val b"
  by (simp add: f32_lt_def finite_not_special dy_less_iff dyv_dy)

lemma f32_88_facts:
  "is_finite f32_88" "\<not> is_zero f32_88" "f32_val f32_88 = 88" "\<not> f32_sign f32_88"
  "is_finite f32_minus_88" "\<not> is_zero f32_minus_88" "f32_val f32_minus_88 = - 88"
  "f32_sign f32_minus_88"
  by (simp_all add: f32_88_def f32_minus_88_def is_finite_def is_zero_def f32_val_def f32_exp_def
      f32_frac_def f32_sign_def mant_def expo_def)

lemma coefficient_facts:
  "is_finite f32_1" "\<bar>f32_val f32_1\<bar> \<le> 1"
  "is_finite f32_0_5" "\<bar>f32_val f32_0_5\<bar> \<le> 1"
  "is_finite f32_0_16666667" "\<bar>f32_val f32_0_16666667\<bar> \<le> 1"
  "is_finite f32_0_04166667" "\<bar>f32_val f32_0_04166667\<bar> \<le> 1"
  by (simp_all add: f32_1_def f32_0_5_def f32_0_16666667_def f32_0_04166667_def is_finite_def
      f32_val_def f32_exp_def f32_frac_def f32_sign_def mant_def expo_def)

lemma clamp88_bound:
  assumes "\<not> is_nan x"
  shows "is_finite (clamp88 x) \<and> \<bar>f32_val (clamp88 x)\<bar> \<le> 88"
proof -
  note c = f32_88_facts
  have n88: "\<not> is_nan f32_88" "\<not> is_snan f32_88" "\<not> is_inf f32_88"
    "\<not> is_nan f32_minus_88" "\<not> is_snan f32_minus_88" "\<not> is_inf f32_minus_88"
    using finite_not_special [OF c(1)] finite_not_special [OF c(5)] by simp_all
  have xs: "\<not> is_snan x" using assms by (simp add: is_snan_def)
  define y where "y = fmin x f32_88"
  have y: "y = (if f32_lt x f32_88 then x else f32_88)"
    using assms xs n88 c by (simp add: y_def fmin_def process_nans_def)
  have ycases: "(is_inf y \<and> f32_sign y) \<or> (is_finite y \<and> f32_val y \<le> 88)"
  proof (cases "is_inf x")
    case True
    then show ?thesis using n88 c by (simp add: y f32_lt_def)
  next
    case False
    with assms have fx: "is_finite x" using not_nan_cases by blast
    then show ?thesis using c by (simp add: y f32_lt_finite)
  qed
  have yn: "\<not> is_nan y" "\<not> is_snan y"
    using ycases by (auto simp: is_nan_def is_snan_def is_inf_def is_finite_def)
  have cl: "clamp88 x = (if f32_lt f32_minus_88 y then y else f32_minus_88)"
    using yn n88 c by (simp add: clamp88_def y_def [symmetric] fmax_def process_nans_def)
  from ycases show ?thesis
  proof
    assume "is_inf y \<and> f32_sign y"
    then have "\<not> f32_lt f32_minus_88 y" using n88 by (simp add: f32_lt_def)
    then show ?thesis using c by (simp add: cl)
  next
    assume fy: "is_finite y \<and> f32_val y \<le> 88"
    then show ?thesis using c by (auto simp: cl f32_lt_finite)
  qed
qed

lemma maclaurin4_finite:
  assumes "is_finite c" and "\<bar>f32_val c\<bar> \<le> 88"
  shows "is_finite (maclaurin4 c)"
proof -
  note k = coefficient_facts
  define x2 where "x2 = fmul c c"
  define x3 where "x3 = fmul x2 c"
  define x4 where "x4 = fmul x3 c"
  define r1 where "r1 = fmuladd f32_1 c f32_1"
  define r2 where "r2 = fmuladd r1 x2 f32_0_5"
  define r3 where "r3 = fmuladd r2 x3 f32_0_16666667"
  define r4 where "r4 = fmuladd r3 x4 f32_0_04166667"
  have x2: "is_finite x2 \<and> \<bar>f32_val x2\<bar> \<le> 2 ^ 13"
    unfolding x2_def by (rule fmul_bound [OF assms(1) assms(1) assms(2) assms(2)]) simp_all
  have x3: "is_finite x3 \<and> \<bar>f32_val x3\<bar> \<le> 2 ^ 20"
    unfolding x3_def by (rule fmul_bound [OF conjunct1 [OF x2] assms(1) conjunct2 [OF x2] assms(2)]) simp_all
  have x4: "is_finite x4 \<and> \<bar>f32_val x4\<bar> \<le> 2 ^ 27"
    unfolding x4_def by (rule fmul_bound [OF conjunct1 [OF x3] assms(1) conjunct2 [OF x3] assms(2)]) simp_all
  have r1: "is_finite r1 \<and> \<bar>f32_val r1\<bar> \<le> 2 ^ 7"
    unfolding r1_def
    by (rule fmuladd_bound [OF k(1) assms(1) k(1) k(2) assms(2) k(2)]) simp_all
  have r2: "is_finite r2 \<and> \<bar>f32_val r2\<bar> \<le> 2 ^ 14"
    unfolding r2_def
    by (rule fmuladd_bound [OF conjunct1 [OF r1] conjunct1 [OF x2] k(3) conjunct2 [OF r1]
          conjunct2 [OF x2] k(4)]) simp_all
  have r3: "is_finite r3 \<and> \<bar>f32_val r3\<bar> \<le> 2 ^ 21"
    unfolding r3_def
    by (rule fmuladd_bound [OF conjunct1 [OF r2] conjunct1 [OF x3] k(5) conjunct2 [OF r2]
          conjunct2 [OF x3] k(6)]) simp_all
  have r4: "is_finite r4 \<and> \<bar>f32_val r4\<bar> \<le> 2 ^ 28"
    unfolding r4_def
    by (rule fmuladd_bound [OF conjunct1 [OF r3] conjunct1 [OF x4] k(7) conjunct2 [OF r3]
          conjunct2 [OF x4] k(8)]) simp_all
  have "maclaurin4 c = r4"
    by (simp only: maclaurin4_def r4_def r3_def r2_def r1_def x4_def x3_def x2_def)
  with r4 show ?thesis by simp
qed

lemma neon_exp_lanes:
  "neon_exp_f32x4 (Vec4 a b c d)
     = Vec4 (maclaurin4 (clamp88 a)) (maclaurin4 (clamp88 b))
         (maclaurin4 (clamp88 c)) (maclaurin4 (clamp88 d))"
  by (simp add: neon_exp_f32x4_def Let_def vminq_f32_def vmaxq_f32_def vmulq_f32_def vfmaq_f32_def
      vdupq_n_f32_def maclaurin4_def clamp88_def)

text \<open>At zero the approximation is exactly 1.\<close>

lemma exp_of_zero: "neon_exp_f32x4 NEON_ZEROS = vdupq_n_f32 f32_1"
  by (simp add: NEON_ZEROS_def neon_exp_lanes maclaurin4_def clamp88_def f32_88_def f32_minus_88_def
      f32_1_def f32_0_5_def f32_0_16666667_def f32_0_04166667_def vdupq_n_f32_def f32_defs)

subsection \<open>NaN lanes\<close>

text \<open>
  Quietening a NaN sets the top fraction bit and leaves the exponent. An operation
  with one NaN operand returns it, quietened if it was signalling; so a NaN goes
  through both clamps and through every step of the polynomial.
\<close>

lemma f32_exp_bits: "f32_exp w = take_bit 8 (drop_bit 23 (unat w))"
  by (simp only: f32_exp_def take_bit_eq_mod drop_bit_eq_div) simp

lemma f32_frac_bits: "f32_frac w = take_bit 23 (unat w)"
  by (simp only: f32_frac_def take_bit_eq_mod)

lemma unat_quiet: "unat (quiet w) = unat w OR 2 ^ 22"
  by (simp add: quiet_def unsigned_or_eq)

lemma drop_or_exp:
  fixes n :: nat
  shows "k < j \<Longrightarrow> drop_bit j (n OR 2 ^ k) = drop_bit j n"
  by (rule bit_eqI) (auto simp: bit_simps)

lemma take_or_exp:
  fixes n :: nat
  shows "take_bit (Suc k) (n OR 2 ^ k) = take_bit k n + 2 ^ k"
proof -
  have "take_bit (Suc k) (n OR 2 ^ k) = take_bit k n OR 2 ^ k"
    by (rule bit_eqI) (auto simp: bit_simps)
  also have "\<dots> = take_bit k n + 2 ^ k"
    by (rule disjunctive_add [symmetric]) (auto simp: bit_simps)
  finally show ?thesis .
qed

lemma f32_exp_quiet: "f32_exp (quiet w) = f32_exp w"
proof -
  have "drop_bit 23 (unat w OR 2 ^ 22) = drop_bit 23 (unat w)"
    by (rule drop_or_exp) simp
  then show ?thesis by (simp only: f32_exp_bits unat_quiet)
qed

lemma f32_frac_quiet: "2 ^ 22 \<le> f32_frac (quiet w)"
  using take_or_exp [of 22 "unat w"] by (simp only: f32_frac_bits unat_quiet) simp

lemma quiet_nan: "is_nan w \<Longrightarrow> is_nan (quiet w) \<and> \<not> is_snan (quiet w)"
  using f32_frac_quiet [of w] by (simp add: is_nan_def is_snan_def f32_exp_quiet)

lemma nan_operand:
  "is_nan x \<Longrightarrow> is_nan (if is_snan x then quiet x else x)
     \<and> \<not> is_snan (if is_snan x then quiet x else x)"
  by (simp add: quiet_nan)

lemma nan_not_special: "is_nan q \<Longrightarrow> \<not> is_inf q \<and> \<not> is_zero q \<and> \<not> is_finite q"
  by (simp add: is_nan_def is_inf_def is_zero_def is_finite_def)

lemma not_nan_not_snan: "\<not> is_nan c \<Longrightarrow> \<not> is_snan c"
  by (simp add: is_snan_def)

lemma fmin_nan:
  "is_nan x \<Longrightarrow> \<not> is_nan c \<Longrightarrow> fmin x c = (if is_snan x then quiet x else x)"
  by (simp add: fmin_def process_nans_def not_nan_not_snan)

lemma fmax_nan:
  "is_nan x \<Longrightarrow> \<not> is_nan c \<Longrightarrow> fmax x c = (if is_snan x then quiet x else x)"
  by (simp add: fmax_def process_nans_def not_nan_not_snan)

lemma fmul_qnan: "is_nan q \<Longrightarrow> \<not> is_snan q \<Longrightarrow> fmul q q = q"
  by (simp add: fmul_def process_nans_def)

lemma fmuladd_qnan_factor:
  "is_nan q \<Longrightarrow> \<not> is_snan q \<Longrightarrow> \<not> is_nan a \<Longrightarrow> \<not> is_nan c \<Longrightarrow> fmuladd a q c = q"
  by (simp add: fmuladd_def process_nans3_def Let_def not_nan_not_snan)

lemma fmuladd_qnan:
  "is_nan q \<Longrightarrow> \<not> is_snan q \<Longrightarrow> \<not> is_nan c \<Longrightarrow> fmuladd q q c = q"
  by (simp add: fmuladd_def process_nans3_def Let_def not_nan_not_snan nan_not_special)

lemma coefficient_not_nan:
  "\<not> is_nan f32_88" "\<not> is_nan f32_minus_88" "\<not> is_nan f32_1" "\<not> is_nan f32_0_5"
  "\<not> is_nan f32_0_16666667" "\<not> is_nan f32_0_04166667"
  using f32_88_facts(1,5) coefficient_facts(1,3,5,7) by (simp_all add: finite_not_special)

lemma clamp88_nan:
  assumes "is_nan x"
  shows "clamp88 x = (if is_snan x then quiet x else x)"
proof -
  define q where "q = (if is_snan x then quiet x else x)"
  have q: "is_nan q" "\<not> is_snan q" using nan_operand [OF assms] by (simp_all add: q_def)
  have "fmin x f32_88 = q"
    unfolding q_def using assms coefficient_not_nan(1) by (rule fmin_nan)
  moreover have "fmax q f32_minus_88 = q"
    using q coefficient_not_nan(2) by (simp add: fmax_nan)
  ultimately show ?thesis by (simp add: clamp88_def q_def)
qed

lemma maclaurin4_qnan:
  assumes "is_nan q" and "\<not> is_snan q"
  shows "maclaurin4 q = q"
  by (simp add: maclaurin4_def fmul_qnan [OF assms] fmuladd_qnan [OF assms]
      fmuladd_qnan_factor [OF assms] coefficient_not_nan)

lemma neon_exp_nan_lane:
  assumes "is_nan x"
  shows "clamp88 x = (if is_snan x then quiet x else x) \<and> is_nan (clamp88 x)
    \<and> maclaurin4 (clamp88 x) = clamp88 x"
proof -
  have c: "clamp88 x = (if is_snan x then quiet x else x)" using assms by (rule clamp88_nan)
  have q: "is_nan (clamp88 x) \<and> \<not> is_snan (clamp88 x)"
    unfolding c by (rule nan_operand [OF assms])
  then have "maclaurin4 (clamp88 x) = clamp88 x" by (simp add: maclaurin4_qnan)
  with c q show ?thesis by blast
qed

text \<open>
  C7 as the code has it. Each lane of \<^verbatim>\<open>neon_exp_f32x4\<close> is the degree-4 polynomial
  evaluated on the lane clamped by \<^verbatim>\<open>vminq_f32\<close> with 88 and \<^verbatim>\<open>vmaxq_f32\<close> with -88.
  For every lane that is not a NaN (infinities and everything outside \<open>[-88, 88]\<close>
  included) the clamped lane is finite and within \<open>[-88, 88]\<close>, and the result lane is
  finite. Every NaN lane passes both clamps as itself, quietened if it was
  signalling: it is not clamped, and the result lane is that same NaN, which is not
  finite.
\<close>

theorem neon_exp_clamped_finite:
  "neon_exp_f32x4 (Vec4 a b c d)
     = Vec4 (maclaurin4 (clamp88 a)) (maclaurin4 (clamp88 b))
         (maclaurin4 (clamp88 c)) (maclaurin4 (clamp88 d))
   \<and> (\<forall>x. \<not> is_nan x \<longrightarrow>
          is_finite (clamp88 x) \<and> \<bar>f32_val (clamp88 x)\<bar> \<le> 88
          \<and> is_finite (maclaurin4 (clamp88 x)))
   \<and> (\<forall>x. is_nan x \<longrightarrow>
          clamp88 x = (if is_snan x then quiet x else x) \<and> is_nan (clamp88 x)
          \<and> maclaurin4 (clamp88 x) = clamp88 x \<and> \<not> is_finite (maclaurin4 (clamp88 x)))"
proof (intro conjI allI impI)
  show "neon_exp_f32x4 (Vec4 a b c d)
     = Vec4 (maclaurin4 (clamp88 a)) (maclaurin4 (clamp88 b))
         (maclaurin4 (clamp88 c)) (maclaurin4 (clamp88 d))"
    by (rule neon_exp_lanes)
next
  fix x assume "\<not> is_nan x"
  then have b: "is_finite (clamp88 x) \<and> \<bar>f32_val (clamp88 x)\<bar> \<le> 88" by (rule clamp88_bound)
  then show "is_finite (clamp88 x)" "\<bar>f32_val (clamp88 x)\<bar> \<le> 88" by simp_all
  from b show "is_finite (maclaurin4 (clamp88 x))" by (simp add: maclaurin4_finite)
next
  fix x assume "is_nan x"
  then have n: "clamp88 x = (if is_snan x then quiet x else x) \<and> is_nan (clamp88 x)
    \<and> maclaurin4 (clamp88 x) = clamp88 x" by (rule neon_exp_nan_lane)
  then show "clamp88 x = (if is_snan x then quiet x else x)" "is_nan (clamp88 x)"
    "maclaurin4 (clamp88 x) = clamp88 x" by blast+
  from n have e: "maclaurin4 (clamp88 x) = clamp88 x" and i: "is_nan (clamp88 x)" by blast+
  have "is_nan (maclaurin4 (clamp88 x))" unfolding e by (rule i)
  then show "\<not> is_finite (maclaurin4 (clamp88 x))" by (simp add: nan_not_special)
qed

lemma nan_example:
  "\<not> is_nan 0x7F800000" "\<not> is_nan 0x42C80000"
  "is_nan 0x7F800001" "is_snan 0x7F800001" "quiet 0x7F800001 = 0x7FC00001"
  "is_nan 0x7FC00000" "\<not> is_snan 0x7FC00000"
  by (simp_all add: is_nan_def is_snan_def quiet_def f32_exp_def f32_frac_def)

theorem neon_exp_clamped_finite_witness:
  "\<not> is_nan 0x7F800000
   \<and> is_finite (clamp88 0x7F800000) \<and> \<bar>f32_val (clamp88 0x7F800000)\<bar> \<le> 88
   \<and> is_finite (maclaurin4 (clamp88 0x7F800000))
   \<and> \<not> is_nan 0x42C80000
   \<and> is_finite (maclaurin4 (clamp88 0x42C80000))
   \<and> is_nan 0x7F800001 \<and> clamp88 0x7F800001 = 0x7FC00001
   \<and> maclaurin4 (clamp88 0x7F800001) = 0x7FC00001
   \<and> is_nan 0x7FC00000 \<and> clamp88 0x7FC00000 = 0x7FC00000
   \<and> maclaurin4 (clamp88 0x7FC00000) = 0x7FC00000"
proof -
  note t = neon_exp_clamped_finite [of 0 0 0 0]
  from t have f: "\<not> is_nan x \<Longrightarrow> is_finite (clamp88 x) \<and> \<bar>f32_val (clamp88 x)\<bar> \<le> 88
    \<and> is_finite (maclaurin4 (clamp88 x))" for x by blast
  from t have n: "is_nan x \<Longrightarrow> clamp88 x = (if is_snan x then quiet x else x)
    \<and> maclaurin4 (clamp88 x) = clamp88 x" for x by blast
  show ?thesis
    using f [of "0x7F800000"] f [of "0x42C80000"] n [of "0x7F800001"] n [of "0x7FC00000"]
      nan_example by auto
qed

text \<open>
  A NaN lane passes through both clamps (FMIN and FMAX return a NaN operand) and
  through the polynomial: the result lane is a NaN, which is not finite.
\<close>

theorem neon_exp_nan_counterexample:
  "neon_exp_f32x4 (Vec4 0x7FC00000 0 0 0)
     = Vec4 0x7FC00000 0x3F800000 0x3F800000 0x3F800000
   \<and> \<not> is_finite (lane (neon_exp_f32x4 (Vec4 0x7FC00000 0 0 0)) 0)"
  by (simp add: neon_exp_lanes maclaurin4_def clamp88_def f32_88_def f32_minus_88_def f32_1_def
      f32_0_5_def f32_0_16666667_def f32_0_04166667_def f32_defs)

section \<open>ReLU by comparison and select\<close>

lemma all_ones: "(0xFFFFFFFF :: 32 word) = - 1"
  by simp

lemma and_all_ones: "v AND 0xFFFFFFFF = (v :: 32 word)"
  unfolding all_ones by simp

lemma mant_pos_iff: "0 < mant v \<longleftrightarrow> \<not> is_zero v"
  by (auto simp: mant_def is_zero_def)

lemma f32_val_pos_iff: "0 < f32_val v \<longleftrightarrow> \<not> f32_sign v \<and> \<not> is_zero v"
proof -
  have p: "0 < (2 :: real) powi expo v" by simp
  show ?thesis
  proof (cases "f32_sign v")
    case True
    have "0 \<le> real (mant v) * 2 powi expo v" by simp
    then show ?thesis using True by (simp add: f32_val_def not_less)
  next
    case False
    then show ?thesis using p by (simp add: f32_val_def zero_less_mult_iff mant_pos_iff)
  qed
qed

lemma zero_facts: "\<not> is_nan 0" "\<not> is_inf 0" "is_finite 0" "f32_val 0 = 0"
  by (simp_all add: is_nan_def is_inf_def is_finite_def f32_val_def f32_exp_def f32_frac_def
      mant_def)

lemma fcmgt_zero: "fcmgt v 0 \<longleftrightarrow> positive v"
proof (cases "is_nan v")
  case True
  then show ?thesis by (simp add: fcmgt_def positive_def)
next
  case False
  then consider "is_inf v" | "is_finite v" using not_nan_cases by blast
  then show ?thesis
  proof cases
    case 1
    then have "\<not> is_zero v" by (simp add: is_inf_def is_zero_def)
    then show ?thesis using 1 False zero_facts by (simp add: fcmgt_def positive_def f32_lt_def)
  next
    case 2
    then show ?thesis
      using False zero_facts by (simp add: fcmgt_def positive_def f32_lt_finite f32_val_pos_iff)
  qed
qed

lemma select_lane:
  "((v AND (if fcmgt v 0 then 0xFFFFFFFF else 0)) OR (0 AND NOT (if fcmgt v 0 then 0xFFFFFFFF else 0)))
     = relu v"
  by (simp add: relu_def fcmgt_zero and_all_ones)

text \<open>
  C8. For every vector \<open>x\<close>, \<^verbatim>\<open>neon_select_f32x4\<close> applied to the mask
  \<^verbatim>\<open>neon_cmpgt_f32x4(x, 0)\<close>, \<open>x\<close> and the zero vector has \<open>x[i]\<close> in the lanes where
  \<open>x[i] > 0\<close> and \<open>0\<close> in the others; on \<open>[-2, 3, -1, 5]\<close> it gives \<open>[0, 3, 0, 5]\<close>.
\<close>

theorem relu_by_select:
  "neon_select_f32x4 (neon_cmpgt_f32x4 (Vec4 a b c d) NEON_ZEROS) (Vec4 a b c d) NEON_ZEROS
     = Vec4 (relu a) (relu b) (relu c) (relu d)
   \<and> neon_select_f32x4
       (neon_cmpgt_f32x4 (Vec4 (f32_of_int (- 2)) (f32_of_int 3) (f32_of_int (- 1)) (f32_of_int 5))
          NEON_ZEROS)
       (Vec4 (f32_of_int (- 2)) (f32_of_int 3) (f32_of_int (- 1)) (f32_of_int 5)) NEON_ZEROS
     = Vec4 (f32_of_int 0) (f32_of_int 3) (f32_of_int 0) (f32_of_int 5)"
proof -
  have g: "neon_select_f32x4 (neon_cmpgt_f32x4 (Vec4 a b c d) NEON_ZEROS) (Vec4 a b c d) NEON_ZEROS
     = Vec4 (relu a) (relu b) (relu c) (relu d)" for a b c d
    by (simp add: neon_select_f32x4_def neon_cmpgt_f32x4_def vbslq_f32_def vcgtq_f32_def
        NEON_ZEROS_def relu_def fcmgt_zero and_all_ones)
  have r: "relu (f32_of_int (- 2)) = f32_of_int 0" "relu (f32_of_int 3) = f32_of_int 3"
    "relu (f32_of_int (- 1)) = f32_of_int 0" "relu (f32_of_int 5) = f32_of_int 5"
    by (simp_all add: relu_def positive_def f32_defs)
  show ?thesis by (simp only: g r)
qed

end
